theory Spec2Isabelle
  imports Main
begin

section \<open>The page session helper of common.js\<close>

text \<open>
  The file common.js creates one Socket.IO client for the whole page and defines
  \<open>SocketPage(name)\<close>, which builds a page-scoped object (\<open>scope\<close>) whose methods
  register listeners, defer emissions until the socket is connected, start polling timers
  and release both again.

  The methods are closures over the shared socket, the \<open>scope\<close> object, the browser's
  timer table and \<open>document.hidden\<close>. The model threads one record \<open>sys\<close> holding all of
  them through every operation. Scope objects live in a store (a list, indexed by creation
  order), since the reconnect listener installed by \<open>SocketPage\<close> reads its scope whenever
  the signal arrives.

  Functions passed in by page scripts (handlers, poll callbacks, reconnect callbacks) are
  opaque: a function value is represented by its identity, and invoking it is recorded in
  the \<open>trace\<close> of the system together with the place it was called from. Console output is
  not modelled.
\<close>

subsection \<open>Data\<close>

type_synonym event = string
type_synonym fn = nat

text \<open>
  What can sit in the socket's callback lists: a function subscribed with \<open>on\<close>, the
  wrapper that \<open>once\<close> builds around a function (it carries the wrapped function in its
  \<open>fn\<close> member), the anonymous reconnect closure of \<open>SocketPage\<close> for the scope with the
  given index (lines 133-138), and the three logging closures of lines 40-50.
\<close>

datatype listener = Handler fn | OnceWrap fn | ReconnectHook nat | LifecycleLog

text \<open>An invocation of a page-supplied function, tagged with its call site.\<close>

datatype call = Direct fn | ByListener event listener fn | ByTick nat fn

text \<open>The \<open>tick\<close> closure of \<open>scope.poll\<close> with the period it was given to \<open>setInterval\<close>.\<close>

record interval =
  period :: int
  visibleOnly :: bool
  callback :: fn

text \<open>
  The object literal of lines 65-70; \<open>onReconnect_cb\<close> is the member \<open>_onReconnect\<close>,
  undefined until \<open>scope.onReconnect\<close> assigns it. The object \<open>listeners\<close> is kept as the
  list of its own entries, in insertion order (\<open>Object.entries\<close> is that list), together
  with its prototype: \<open>None\<close> for \<open>Object.prototype\<close>, which the literal \<open>{}\<close> has, and
  \<open>Some p\<close> once a function \<open>p\<close> has been assigned to the key \<open>__proto__\<close>.
\<close>

record scope =
  name :: string
  timers :: "nat list"
  listeners :: "(event \<times> fn) list"
  listeners_proto :: "fn option"
  started :: bool
  onReconnect_cb :: "fn option"

text \<open>An exception thrown by the script.\<close>

datatype js_error = TypeError string

text \<open>
  When the prototype of a \<open>listeners\<close> object is a function \<open>p\<close>, a key that is not an own
  entry (and is not \<open>__proto__\<close>) is looked up and assigned through \<open>p\<close>. What happens
  depends on the member that function objects have under that name, on the engine and on
  whether the script is strict; it is one of three things. \<open>Creates\<close>: there is no such
  member or it is writable, and the assignment creates an own entry. \<open>Ignored\<close>: the member
  is read-only (as \<open>name\<close> and \<open>length\<close> are) and the assignment is dropped without an
  error. \<open>Throws\<close>: the lookup or the assignment throws a TypeError (as for \<open>caller\<close> and
  \<open>arguments\<close> of an arrow function). In none of them is the value looked up a function of
  a page script. Which of the three applies is a parameter of the system (\<open>slots\<close>).
\<close>

datatype slot = Creates | Ignored | Throws

record sys =
  connected :: bool
  callbacks :: "event \<Rightarrow> listener list"
  hidden :: bool
  intervals :: "(nat \<times> interval) list"
  next_timer :: nat
  scopes :: "scope list"
  slots :: "fn \<Rightarrow> event \<Rightarrow> slot"
  trace :: "call list"

definition log_call :: "call \<Rightarrow> sys \<Rightarrow> sys" where
  "log_call c st = st\<lparr>trace := trace st @ [c]\<rparr>"

subsection \<open>The shared connection and the browser\<close>

text \<open>
  Modelled from the spec: the Realtime Connection of section 4.1 (subscribe, unsubscribe,
  connection-state query, lifecycle signals) is the Socket.IO client, and the timers are the
  browser's; neither is code of the repository. Their operations follow the emitter the
  client is built on: \<open>on\<close> appends to the event's callback list; \<open>off(event, fn)\<close> removes
  the first callback that is \<open>fn\<close> or wraps \<open>fn\<close>; \<open>off(event)\<close> removes all callbacks of
  the event; \<open>once\<close> subscribes a wrapper that unsubscribes itself and then calls the
  function; emitting an event calls a snapshot of the event's callbacks in order.
  \<open>setInterval\<close> returns a handle never returned before; \<open>clearInterval\<close> of a handle that
  is not active does nothing.
\<close>

definition sock_on :: "event \<Rightarrow> listener \<Rightarrow> sys \<Rightarrow> sys" where
  "sock_on ev l st = st\<lparr>callbacks := (callbacks st)(ev := callbacks st ev @ [l])\<rparr>"

fun wraps :: "fn \<Rightarrow> listener \<Rightarrow> bool" where
  "wraps f (Handler g) = (g = f)"
| "wraps f (OnceWrap g) = (g = f)"
| "wraps f (ReconnectHook s) = False"
| "wraps f LifecycleLog = False"

fun splice_first :: "fn \<Rightarrow> listener list \<Rightarrow> listener list" where
  "splice_first f [] = []"
| "splice_first f (l # ls) = (if wraps f l then ls else l # splice_first f ls)"

definition sock_off :: "event \<Rightarrow> fn \<Rightarrow> sys \<Rightarrow> sys" where
  "sock_off ev f st = st\<lparr>callbacks := (callbacks st)(ev := splice_first f (callbacks st ev))\<rparr>"

definition sock_off_all :: "event \<Rightarrow> sys \<Rightarrow> sys" where
  "sock_off_all ev st = st\<lparr>callbacks := (callbacks st)(ev := [])\<rparr>"

definition sock_once :: "event \<Rightarrow> fn \<Rightarrow> sys \<Rightarrow> sys" where
  "sock_once ev f st = sock_on ev (OnceWrap f) st"

text \<open>
  Calling one callback of event \<open>ev\<close>. The reconnect closure is the source's
  \<open>if (scope.started && scope._onReconnect) scope._onReconnect()\<close>.
\<close>

fun invoke :: "event \<Rightarrow> listener \<Rightarrow> sys \<Rightarrow> sys" where
  "invoke ev (Handler f) st = log_call (ByListener ev (Handler f) f) st"
| "invoke ev (OnceWrap f) st =
     log_call (ByListener ev (OnceWrap f) f)
       (st\<lparr>callbacks := (callbacks st)(ev := remove1 (OnceWrap f) (callbacks st ev))\<rparr>)"
| "invoke ev (ReconnectHook s) st =
     (if s < length (scopes st) then
        (let sc = scopes st ! s in
         if started sc then
           (case onReconnect_cb sc of
              Some f \<Rightarrow> log_call (ByListener ev (ReconnectHook s) f) st
            | None \<Rightarrow> st)
         else st)
      else st)"
| "invoke ev LifecycleLog st = st"

definition sock_emit :: "event \<Rightarrow> sys \<Rightarrow> sys" where
  "sock_emit ev st = fold (invoke ev) (callbacks st ev) st"

definition setInterval :: "interval \<Rightarrow> sys \<Rightarrow> nat \<times> sys" where
  "setInterval iv st =
     (next_timer st,
      st\<lparr>intervals := intervals st @ [(next_timer st, iv)], next_timer := Suc (next_timer st)\<rparr>)"

definition clearInterval :: "nat \<Rightarrow> sys \<Rightarrow> sys" where
  "clearInterval t st = st\<lparr>intervals := filter (\<lambda>(k, iv). k \<noteq> t) (intervals st)\<rparr>"

text \<open>What the environment does to the page: lifecycle signals of the connection, an
  inbound server event, one firing of an interval, a change of tab visibility.\<close>

datatype signal = Connect | Disconnect | Reconnect

datatype env_event = Signal signal | Inbound event | Tick nat | Visibility bool

text \<open>The \<open>tick\<close> closure of lines 103-105.\<close>

definition tick :: "nat \<Rightarrow> interval \<Rightarrow> sys \<Rightarrow> sys" where
  "tick t iv st =
     (if \<not> visibleOnly iv \<or> \<not> hidden st then log_call (ByTick t (callback iv)) st else st)"

fun env_step :: "env_event \<Rightarrow> sys \<Rightarrow> sys" where
  "env_step (Signal Connect) st = sock_emit ''connect'' (st\<lparr>connected := True\<rparr>)"
| "env_step (Signal Disconnect) st = sock_emit ''disconnect'' (st\<lparr>connected := False\<rparr>)"
| "env_step (Signal Reconnect) st = sock_emit ''reconnect'' st"
| "env_step (Inbound ev) st = sock_emit ev st"
| "env_step (Tick t) st =
     (case map_of (intervals st) t of None \<Rightarrow> st | Some iv \<Rightarrow> tick t iv st)"
| "env_step (Visibility v) st = st\<lparr>hidden := \<not> v\<rparr>"

definition env_run :: "env_event list \<Rightarrow> sys \<Rightarrow> sys" where
  "env_run evs st = fold env_step evs st"

text \<open>The event an environment step emits on the socket, if any.\<close>

fun emitted :: "env_event \<Rightarrow> event option" where
  "emitted (Signal Connect) = Some ''connect''"
| "emitted (Signal Disconnect) = Some ''disconnect''"
| "emitted (Signal Reconnect) = Some ''reconnect''"
| "emitted (Inbound ev) = Some ev"
| "emitted (Tick t) = None"
| "emitted (Visibility v) = None"

subsection \<open>SocketPage and the methods of the scope\<close>

text \<open>
  A method is called on a scope that exists; the scope is named by its index in the store,
  and for an index that names no scope the model leaves the state as it is. Every method
  returns the scope itself (for chaining), so no result is modelled.

  A value of type \<open>fn\<close> is a function defined by a page script: it is truthy, and it is
  none of the built-in functions that objects inherit. \<open>SocketPage\<close> also registers
  \<open>scope.cleanup\<close> for the window's \<open>beforeunload\<close>; unloading is a call of \<open>cleanup\<close> and
  is not modelled separately.
\<close>

text \<open>Assignment \<open>obj[key] = value\<close> on an object kept as a list of entries.\<close>

fun assign :: "'k \<Rightarrow> 'v \<Rightarrow> ('k \<times> 'v) list \<Rightarrow> ('k \<times> 'v) list" where
  "assign k v [] = [(k, v)]"
| "assign k v ((k', v') # kvs) =
     (if k = k' then (k, v) # kvs else (k', v') # assign k v kvs)"

definition SocketPage :: "string \<Rightarrow> sys \<Rightarrow> nat \<times> sys" where
  "SocketPage nm st =
     (let sid = length (scopes st);
          st1 = st\<lparr>scopes := scopes st @
                  [\<lparr>name = nm, timers = [], listeners = [], listeners_proto = None,
                    started = False, onReconnect_cb = None\<rparr>]\<rparr>
      in (sid, sock_on ''reconnect'' (ReconnectHook sid)
                 (sock_off_all (''reconnect.'' @ nm) st1)))"

text \<open>
  The value of \<open>scope.listeners[event]\<close> as far as \<open>scope.on\<close> uses it: a function of a page
  script (then it is truthy and is passed to \<open>off\<close>), or anything else (undefined, or an
  inherited member that is subscribed nowhere, so that \<open>off\<close> is skipped or removes nothing),
  or a TypeError. An own entry is found first; the key \<open>__proto__\<close> yields the prototype.
\<close>

definition listeners_get :: "sys \<Rightarrow> scope \<Rightarrow> event \<Rightarrow> js_error + fn option" where
  "listeners_get st sc ev =
     (case map_of (listeners sc) ev of
        Some f \<Rightarrow> Inr (Some f)
      | None \<Rightarrow>
          if ev = ''__proto__'' then Inr (listeners_proto sc)
          else (case listeners_proto sc of
                  None \<Rightarrow> Inr None
                | Some p \<Rightarrow>
                    (case slots st p ev of
                       Creates \<Rightarrow> Inr None
                     | Ignored \<Rightarrow> Inr None
                     | Throws \<Rightarrow> Inl (TypeError ''scope.listeners[event]''))))"

text \<open>
  The assignment \<open>scope.listeners[event] = handler\<close>: an own entry is overwritten; the key
  \<open>__proto__\<close> replaces the prototype and creates no entry; any other new key becomes an own
  entry unless the prototype is a function whose member of that name makes the assignment
  a no-op.
\<close>

definition listeners_set :: "sys \<Rightarrow> scope \<Rightarrow> event \<Rightarrow> fn \<Rightarrow> scope" where
  "listeners_set st sc ev h =
     (case map_of (listeners sc) ev of
        Some f \<Rightarrow> sc\<lparr>listeners := assign ev h (listeners sc)\<rparr>
      | None \<Rightarrow>
          if ev = ''__proto__'' then sc\<lparr>listeners_proto := Some h\<rparr>
          else (case listeners_proto sc of
                  None \<Rightarrow> sc\<lparr>listeners := assign ev h (listeners sc)\<rparr>
                | Some p \<Rightarrow>
                    (case slots st p ev of
                       Creates \<Rightarrow> sc\<lparr>listeners := assign ev h (listeners sc)\<rparr>
                     | Ignored \<Rightarrow> sc
                     | Throws \<Rightarrow> sc)))"

text \<open>
  \<open>scope.on\<close> (lines 75-82): the lookup, the \<open>off\<close> of what it found, the assignment, the
  \<open>on\<close>. A TypeError of the lookup ends the call before anything has changed.
\<close>

definition scope_on_outcome :: "nat \<Rightarrow> event \<Rightarrow> fn \<Rightarrow> sys \<Rightarrow> js_error + sys" where
  "scope_on_outcome sid ev h st =
     (let sc = scopes st ! sid in
      case listeners_get st sc ev of
        Inl e \<Rightarrow> Inl e
      | Inr v \<Rightarrow>
          Inr (let st1 = (case v of Some old \<Rightarrow> sock_off ev old st | None \<Rightarrow> st);
                   st2 = st1\<lparr>scopes := (scopes st1)[sid := listeners_set st sc ev h]\<rparr>
               in sock_on ev (Handler h) st2))"

definition scope_on :: "nat \<Rightarrow> event \<Rightarrow> fn \<Rightarrow> sys \<Rightarrow> sys" where
  "scope_on sid ev h st =
     (if sid < length (scopes st) then
        (case scope_on_outcome sid ev h st of Inl e \<Rightarrow> st | Inr st' \<Rightarrow> st')
      else st)"

definition scope_emitWhenReady :: "nat \<Rightarrow> fn \<Rightarrow> sys \<Rightarrow> sys" where
  "scope_emitWhenReady sid emitFn st =
     (if connected st then log_call (Direct emitFn) st else sock_once ''connect'' emitFn st)"

definition scope_poll :: "nat \<Rightarrow> int \<Rightarrow> fn \<Rightarrow> bool \<Rightarrow> bool \<Rightarrow> sys \<Rightarrow> sys" where
  "scope_poll sid ms f immediate vis st =
     (if sid < length (scopes st) then
        (let st1 = (if immediate then scope_emitWhenReady sid f st else st);
             (t, st2) = setInterval \<lparr>period = ms, visibleOnly = vis, callback = f\<rparr> st1;
             sc = scopes st2 ! sid
         in st2\<lparr>scopes := (scopes st2)[sid := sc\<lparr>timers := timers sc @ [t]\<rparr>]\<rparr>)
      else st)"

text \<open>The options of \<open>poll\<close> are destructured with defaults
  (\<open>{ immediate = true, visibleOnly = true } = {}\<close>): a member that is left out is true.\<close>

definition scope_poll_opts ::
  "nat \<Rightarrow> int \<Rightarrow> fn \<Rightarrow> bool option \<Rightarrow> bool option \<Rightarrow> sys \<Rightarrow> sys" where
  "scope_poll_opts sid ms f immediate vis st =
     scope_poll sid ms f
       (case immediate of None \<Rightarrow> True | Some b \<Rightarrow> b)
       (case vis of None \<Rightarrow> True | Some b \<Rightarrow> b) st"

definition scope_cleanup :: "nat \<Rightarrow> sys \<Rightarrow> sys" where
  "scope_cleanup sid st =
     (if sid < length (scopes st) then
        (let st1 = fold clearInterval (timers (scopes st ! sid)) st;
             st2 = st1\<lparr>scopes := (scopes st1)[sid := (scopes st1 ! sid)\<lparr>timers := []\<rparr>]\<rparr>;
             st3 = fold (\<lambda>(ev, f). sock_off ev f) (listeners (scopes st2 ! sid)) st2
         in st3\<lparr>scopes := (scopes st3)
                [sid := (scopes st3 ! sid)\<lparr>listeners := [], listeners_proto := None\<rparr>]\<rparr>)
      else st)"

definition scope_onReconnect :: "nat \<Rightarrow> fn \<Rightarrow> sys \<Rightarrow> sys" where
  "scope_onReconnect sid f st =
     (if sid < length (scopes st) then
        st\<lparr>scopes := (scopes st)[sid := (scopes st ! sid)\<lparr>onReconnect_cb := Some f\<rparr>]\<rparr>
      else st)"

definition scope_markStarted :: "nat \<Rightarrow> sys \<Rightarrow> sys" where
  "scope_markStarted sid st =
     (if sid < length (scopes st) then
        st\<lparr>scopes := (scopes st)[sid := (scopes st ! sid)\<lparr>started := True\<rparr>]\<rparr>
      else st)"

subsection \<open>Page start-up and runs of the system\<close>

text \<open>
  The state after common.js has run: the socket exists and is not yet connected, and the
  three logging callbacks of lines 40-50 are subscribed, each after an \<open>off\<close> of its event.
  For the parameter \<open>slots\<close> this state takes the table of a page whose functions are arrow
  functions, in a script that is not strict.
\<close>

definition arrow_slots :: "fn \<Rightarrow> event \<Rightarrow> slot" where
  "arrow_slots p k =
     (if k = ''name'' \<or> k = ''length'' then Ignored
      else if k = ''caller'' \<or> k = ''arguments'' then Throws
      else Creates)"

definition new_socket :: sys where
  "new_socket =
     \<lparr>connected = False, callbacks = (\<lambda>ev. []), hidden = False, intervals = [],
      next_timer = 1, scopes = [], slots = arrow_slots, trace = []\<rparr>"

definition boot :: sys where
  "boot =
     sock_on ''connect_error'' LifecycleLog (sock_off_all ''connect_error''
       (sock_on ''disconnect'' LifecycleLog (sock_off_all ''disconnect''
         (sock_on ''connect'' LifecycleLog (sock_off_all ''connect'' new_socket)))))"

text \<open>Everything that can happen after start-up: a page script creates a session, calls
  one of its methods, or subscribes a function of its own with \<open>window.socket.on\<close> (as
  job_details.js, notif.js, main.js and dashboard.js do), or the environment acts.\<close>

datatype action =
    Create string
  | On nat event fn
  | EmitWhenReady nat fn
  | Poll nat int fn bool bool
  | Cleanup nat
  | OnReconnect nat fn
  | MarkStarted nat
  | SocketOn event fn
  | Env env_event

fun step :: "action \<Rightarrow> sys \<Rightarrow> sys" where
  "step (Create nm) st = snd (SocketPage nm st)"
| "step (On sid ev h) st = scope_on sid ev h st"
| "step (EmitWhenReady sid f) st = scope_emitWhenReady sid f st"
| "step (Poll sid ms f immediate vis) st = scope_poll sid ms f immediate vis st"
| "step (Cleanup sid) st = scope_cleanup sid st"
| "step (OnReconnect sid f) st = scope_onReconnect sid f st"
| "step (MarkStarted sid) st = scope_markStarted sid st"
| "step (SocketOn ev f) st = sock_on ev (Handler f) st"
| "step (Env e) st = env_step e st"

definition run :: "action list \<Rightarrow> sys \<Rightarrow> sys" where
  "run acts st = fold step acts st"

subsection \<open>Observations used in the statements\<close>

fun is_once :: "listener \<Rightarrow> bool" where
  "is_once (OnceWrap f) = True"
| "is_once l = False"

text \<open>The calls one callback makes when its event is emitted, given the scope store.\<close>

fun calls_of :: "scope list \<Rightarrow> event \<Rightarrow> listener \<Rightarrow> call list" where
  "calls_of scs ev (Handler f) = [ByListener ev (Handler f) f]"
| "calls_of scs ev (OnceWrap f) = [ByListener ev (OnceWrap f) f]"
| "calls_of scs ev (ReconnectHook s) =
     (if s < length scs \<and> started (scs ! s) then
        (case onReconnect_cb (scs ! s) of
           Some f \<Rightarrow> [ByListener ev (ReconnectHook s) f]
         | None \<Rightarrow> [])
      else [])"
| "calls_of scs ev LifecycleLog = []"

text \<open>How many subscriptions of function \<open>f\<close> are live for event \<open>ev\<close>: the number of times
  \<open>f\<close> is called when \<open>ev\<close> is emitted next.\<close>

definition live_count :: "sys \<Rightarrow> event \<Rightarrow> fn \<Rightarrow> nat" where
  "live_count st ev f = length (filter (wraps f) (callbacks st ev))"

text \<open>A session's binding for an event, as an own entry of its \<open>listeners\<close> object.\<close>

definition tracked :: "sys \<Rightarrow> nat \<Rightarrow> event \<Rightarrow> fn option" where
  "tracked st sid ev = map_of (listeners (scopes st ! sid)) ev"

text \<open>The callback table after \<open>off(ev, f)\<close> for each entry of a list of bindings, in order.\<close>

fun unsub :: "(event \<times> fn) list \<Rightarrow> (event \<Rightarrow> listener list) \<Rightarrow> event \<Rightarrow> listener list" where
  "unsub [] cb = cb"
| "unsub ((ev, f) # ls) cb = unsub ls (cb(ev := splice_first f (cb ev)))"

text \<open>The browser hands out interval handles in increasing order; every active handle has
  been handed out already.\<close>

definition timers_fresh :: "sys \<Rightarrow> bool" where
  "timers_fresh st = (\<forall>(k, iv)\<in>set (intervals st). k < next_timer st)"

text \<open>A series of firings of interval \<open>t\<close>; the flag of each firing says whether the tab is
  visible when it happens.\<close>

definition ticks :: "nat \<Rightarrow> bool list \<Rightarrow> sys \<Rightarrow> sys" where
  "ticks t vs st = fold (\<lambda>v s. env_step (Tick t) (env_step (Visibility v) s)) vs st"

text \<open>The scopes whose reconnect closure sits in a callback list, in list order.\<close>

fun hook_ids :: "listener list \<Rightarrow> nat list" where
  "hook_ids [] = []"
| "hook_ids (ReconnectHook s # ls) = s # hook_ids ls"
| "hook_ids (l # ls) = hook_ids ls"

text \<open>Every scope created so far has its reconnect closure subscribed exactly once, in
  creation order. This holds after start-up and is kept by every action.\<close>

definition hooks_installed :: "sys \<Rightarrow> bool" where
  "hooks_installed st = (hook_ids (callbacks st ''reconnect'') = [0..<length (scopes st)])"

text \<open>The keys of every \<open>listeners\<close> object are unique, as the keys of an object are.\<close>

definition keys_unique :: "sys \<Rightarrow> bool" where
  "keys_unique st = (\<forall>sc\<in>set (scopes st). distinct (map fst (listeners sc)))"

text \<open>The functions called by the reconnect closure of scope \<open>sid\<close>, read off a trace.\<close>

fun hook_call :: "nat \<Rightarrow> call \<Rightarrow> fn list" where
  "hook_call sid (ByListener ev (ReconnectHook s) f) = (if s = sid then [f] else [])"
| "hook_call sid c = []"

definition hook_calls :: "nat \<Rightarrow> call list \<Rightarrow> fn list" where
  "hook_calls sid tr = concat (map (hook_call sid) tr)"

text \<open>The callback that the last \<open>onReconnect\<close> call of scope \<open>sid\<close> in a run registered.\<close>

fun last_onReconnect :: "nat \<Rightarrow> action list \<Rightarrow> fn option" where
  "last_onReconnect sid [] = None"
| "last_onReconnect sid (a # as) =
     (case last_onReconnect sid as of
        Some f \<Rightarrow> Some f
      | None \<Rightarrow> (case a of OnReconnect s f \<Rightarrow> if s = sid then Some f else None | _ \<Rightarrow> None))"

text \<open>What the reconnect closure of scope \<open>s\<close> calls when it runs against a scope store.\<close>

definition hook_fires :: "scope list \<Rightarrow> nat \<Rightarrow> fn list" where
  "hook_fires scs s =
     (if s < length scs \<and> started (scs ! s) then
        (case onReconnect_cb (scs ! s) of Some f \<Rightarrow> [f] | None \<Rightarrow> [])
      else [])"

text \<open>
  How many deferred calls of \<open>f\<close> are queued for the connect signal (the wrappers built by
  \<open>once\<close>), and how many calls such wrappers have made in a trace.
\<close>

definition queued :: "sys \<Rightarrow> fn \<Rightarrow> nat" where
  "queued st f = length (filter (\<lambda>l. l = OnceWrap f) (callbacks st ''connect''))"

definition wrapper_calls :: "fn \<Rightarrow> call list \<Rightarrow> nat" where
  "wrapper_calls f tr =
     length (filter (\<lambda>c. c = ByListener ''connect'' (OnceWrap f) f) tr)"

text \<open>
  The one situation in which the \<open>off\<close> calls of \<open>cleanup()\<close> reach a queued wrapper of \<open>f\<close>:
  the session's own entry for \<open>connect\<close> is \<open>f\<close>, and the first callback of \<open>connect\<close> that is
  or wraps \<open>f\<close> is a wrapper.
\<close>

definition cleanup_meets_wrapper :: "sys \<Rightarrow> nat \<Rightarrow> fn \<Rightarrow> bool" where
  "cleanup_meets_wrapper st sid f =
     (tracked st sid ''connect'' = Some f \<and>
      find (wraps f) (callbacks st ''connect'') = Some (OnceWrap f))"

text \<open>
  The members of the object that \<open>SocketPage\<close> returns: the data members of the object
  literal (lines 65-70), the function members assigned at lines 75, 87, 102, 115, 128 and
  143, the member \<open>_onReconnect\<close> once \<open>scope.onReconnect\<close> has assigned a function to it
  (line 129), and what every object inherits from \<open>Object.prototype\<close>. Evaluating a call
  \<open>page.m(...)\<close> throws a TypeError, before anything is called, unless \<open>m\<close> is a member
  holding a function.
\<close>

datatype member = DataMember | FunctionMember

definition object_prototype_members :: "(string \<times> member) list" where
  "object_prototype_members =
     [(''constructor'', FunctionMember), (''hasOwnProperty'', FunctionMember),
      (''isPrototypeOf'', FunctionMember), (''propertyIsEnumerable'', FunctionMember),
      (''toLocaleString'', FunctionMember), (''toString'', FunctionMember),
      (''valueOf'', FunctionMember), (''__defineGetter__'', FunctionMember),
      (''__defineSetter__'', FunctionMember), (''__lookupGetter__'', FunctionMember),
      (''__lookupSetter__'', FunctionMember), (''__proto__'', DataMember)]"

definition scope_member :: "scope \<Rightarrow> string \<Rightarrow> member option" where
  "scope_member sc m =
     (if m = ''_onReconnect''
      then (case onReconnect_cb sc of Some f \<Rightarrow> Some FunctionMember | None \<Rightarrow> None)
      else map_of
        ([(''name'', DataMember), (''timers'', DataMember), (''listeners'', DataMember),
          (''started'', DataMember), (''on'', FunctionMember),
          (''emitWhenReady'', FunctionMember), (''poll'', FunctionMember),
          (''cleanup'', FunctionMember), (''onReconnect'', FunctionMember),
          (''markStarted'', FunctionMember)] @ object_prototype_members) m)"

definition call_error :: "scope \<Rightarrow> string \<Rightarrow> js_error option" where
  "call_error sc m =
     (case scope_member sc m of
        Some FunctionMember \<Rightarrow> None
      | Some DataMember \<Rightarrow> Some (TypeError (''page.'' @ m @ '' is not a function''))
      | None \<Rightarrow> Some (TypeError (''page.'' @ m @ '' is not a function'')))"

section \<open>Emitting an event, in closed form\<close>

text \<open>
  Emitting walks a snapshot of the callback list; a \<open>once\<close> wrapper removes itself when it
  is reached. Since the page-supplied functions are opaque, the walk amounts to: every
  callback of the snapshot makes its calls in order, and the wrappers are gone afterwards.
\<close>

lemma remove1_once_prefix:
  "\<forall>l\<in>set P. \<not> is_once l \<Longrightarrow> remove1 (OnceWrap f) (P @ OnceWrap f # U) = P @ U"
  by (induction P) auto

lemma fold_invoke:
  "\<forall>l\<in>set P. \<not> is_once l \<Longrightarrow> callbacks st ev = P @ U \<Longrightarrow>
   fold (invoke ev) U st =
     st\<lparr>callbacks := (callbacks st)(ev := P @ filter (\<lambda>l. \<not> is_once l) U),
        trace := trace st @ concat (map (calls_of (scopes st) ev) U)\<rparr>"
proof (induction U arbitrary: st P)
  case Nil
  then have "(callbacks st)(ev := P) = callbacks st" by auto
  then show ?case by simp
next
  case (Cons l U)
  let ?st1 = "invoke ev l st"
  let ?P1 = "if is_once l then P else P @ [l]"
  have scs: "scopes ?st1 = scopes st"
    by (cases l) (simp_all add: log_call_def Let_def split: option.splits)
  have tr: "trace ?st1 = trace st @ calls_of (scopes st) ev l"
    by (cases l) (simp_all add: log_call_def Let_def split: option.splits)
  have cb: "callbacks ?st1 = (callbacks st)(ev := ?P1 @ U)"
    using Cons.prems
    by (cases l) (auto simp add: log_call_def Let_def remove1_once_prefix split: option.splits)
  have rest: "connected ?st1 = connected st" "hidden ?st1 = hidden st"
    "intervals ?st1 = intervals st" "next_timer ?st1 = next_timer st" "slots ?st1 = slots st"
    by (cases l; simp add: log_call_def Let_def split: option.splits)+
  have more: "sys.more ?st1 = sys.more st"
    by (cases l) (simp_all add: log_call_def Let_def split: option.splits)
  have P1: "\<forall>l\<in>set ?P1. \<not> is_once l"
    using Cons.prems(1) by auto
  have step: "fold (invoke ev) U ?st1 =
      ?st1\<lparr>callbacks := (callbacks ?st1)(ev := ?P1 @ filter (\<lambda>l. \<not> is_once l) U),
        trace := trace ?st1 @ concat (map (calls_of (scopes ?st1) ev) U)\<rparr>"
    by (rule Cons.IH [OF P1]) (simp add: cb)
  have "fold (invoke ev) (l # U) st = fold (invoke ev) U ?st1"
    by simp
  also note step
  also have "?st1\<lparr>callbacks := (callbacks ?st1)(ev := ?P1 @ filter (\<lambda>l. \<not> is_once l) U),
        trace := trace ?st1 @ concat (map (calls_of (scopes ?st1) ev) U)\<rparr> =
      st\<lparr>callbacks := (callbacks st)(ev := P @ filter (\<lambda>l. \<not> is_once l) (l # U)),
        trace := trace st @ concat (map (calls_of (scopes st) ev) (l # U))\<rparr>"
    by (rule sys.equality) (simp_all add: scs tr cb rest more)
  finally show ?case .
qed

lemma sock_emit_eq:
  "sock_emit ev st =
     st\<lparr>callbacks := (callbacks st)(ev := filter (\<lambda>l. \<not> is_once l) (callbacks st ev)),
        trace := trace st @ concat (map (calls_of (scopes st) ev) (callbacks st ev))\<rparr>"
  unfolding sock_emit_def using fold_invoke [of "[]" st ev "callbacks st ev"] by simp

section \<open>Deferred emission\<close>

lemma env_step_commutes_once:
  assumes "emitted a \<noteq> Some ''connect''"
  shows "env_step a (sock_once ''connect'' f st) = sock_once ''connect'' f (env_step a st)"
proof (cases a)
  case (Signal s)
  with assms show ?thesis
    by (cases s) (auto intro!: sys.equality simp: sock_emit_eq sock_once_def sock_on_def fun_eq_iff)
next
  case (Inbound ev)
  with assms show ?thesis
    by (auto intro!: sys.equality simp: sock_emit_eq sock_once_def sock_on_def fun_eq_iff)
next
  case (Tick t)
  then show ?thesis
    by (auto intro!: sys.equality simp: sock_once_def sock_on_def tick_def log_call_def split: option.splits)
next
  case (Visibility v)
  then show ?thesis
    by (auto intro!: sys.equality simp: sock_once_def sock_on_def)
qed

lemma env_step_stays_disconnected:
  "\<not> connected st \<Longrightarrow> emitted a \<noteq> Some ''connect'' \<Longrightarrow> \<not> connected (env_step a st)"
  by (cases "(a, st)" rule: env_step.cases)
     (auto simp: sock_emit_eq tick_def log_call_def split: option.splits)

lemma env_run_commutes_once:
  "\<forall>a\<in>set evs. emitted a \<noteq> Some ''connect'' \<Longrightarrow>
   env_run evs (sock_once ''connect'' f st) = sock_once ''connect'' f (env_run evs st)"
  unfolding env_run_def
  by (induction evs arbitrary: st) (simp_all add: env_step_commutes_once)

lemma env_run_stays_disconnected:
  "\<not> connected st \<Longrightarrow> \<forall>a\<in>set evs. emitted a \<noteq> Some ''connect'' \<Longrightarrow>
   \<not> connected (env_run evs st)"
  unfolding env_run_def
  by (induction evs arbitrary: st) (simp_all add: env_step_stays_disconnected)

lemma connect_after_once:
  "env_step (Signal Connect) (sock_once ''connect'' f st) =
     log_call (ByListener ''connect'' (OnceWrap f) f) (env_step (Signal Connect) st)"
  by (rule sys.equality)
     (simp_all add: sock_emit_eq sock_once_def sock_on_def log_call_def)

text \<open>
  Claim C2. \<open>emitWhenReady(fn)\<close> on a connected socket calls \<open>fn\<close> once, at once, and leaves
  nothing behind. On a disconnected socket it calls nothing; whatever the environment does
  next short of emitting \<open>connect\<close> (ticks, other signals, inbound events, visibility changes)
  adds no call either; and the connect signal then leads to exactly the state that it would
  have led to without the deferred call, plus one call of \<open>fn\<close> made by the \<open>once\<close> wrapper.
  The wrapper is gone in that state, so this call is never repeated.
\<close>

theorem emitWhenReady_exactly_once:
  "(connected st \<longrightarrow> scope_emitWhenReady sid f st = log_call (Direct f) st) \<and>
   (\<not> connected st \<longrightarrow> (\<forall>a\<in>set evs. emitted a \<noteq> Some ''connect'') \<longrightarrow>
      trace (env_run evs (scope_emitWhenReady sid f st)) = trace (env_run evs st) \<and>
      env_step (Signal Connect) (env_run evs (scope_emitWhenReady sid f st)) =
        log_call (ByListener ''connect'' (OnceWrap f) f)
          (env_step (Signal Connect) (env_run evs st)))"
proof (intro conjI impI)
  assume "connected st"
  then show "scope_emitWhenReady sid f st = log_call (Direct f) st"
    by (simp add: scope_emitWhenReady_def)
next
  assume dis: "\<not> connected st" and evs: "\<forall>a\<in>set evs. emitted a \<noteq> Some ''connect''"
  have run: "env_run evs (scope_emitWhenReady sid f st) = sock_once ''connect'' f (env_run evs st)"
    using dis by (simp add: scope_emitWhenReady_def env_run_commutes_once [OF evs])
  show "trace (env_run evs (scope_emitWhenReady sid f st)) = trace (env_run evs st)"
    by (simp add: run sock_once_def sock_on_def)
  show "env_step (Signal Connect) (env_run evs (scope_emitWhenReady sid f st)) =
        log_call (ByListener ''connect'' (OnceWrap f) f)
          (env_step (Signal Connect) (env_run evs st))"
    by (simp only: run connect_after_once)
qed

lemmas eval_defs =
  env_run_def run_def sock_emit_eq SocketPage_def boot_def new_socket_def sock_on_def
  sock_off_def sock_off_all_def sock_once_def log_call_def tick_def setInterval_def
  clearInterval_def scope_on_def scope_on_outcome_def listeners_get_def listeners_set_def
  arrow_slots_def scope_emitWhenReady_def scope_poll_def scope_cleanup_def
  scope_onReconnect_def scope_markStarted_def live_count_def

theorem emitWhenReady_exactly_once_witness:
  "\<not> connected (snd (SocketPage ''jobs'' boot)) \<and>
   emitted (Tick 1) \<noteq> Some ''connect'' \<and>
   emitted (Signal Reconnect) \<noteq> Some ''connect'' \<and>
   trace (env_run [Tick 1, Signal Reconnect]
      (scope_emitWhenReady 0 7 (snd (SocketPage ''jobs'' boot)))) = [] \<and>
   trace (env_step (Signal Connect) (env_run [Tick 1, Signal Reconnect]
      (scope_emitWhenReady 0 7 (snd (SocketPage ''jobs'' boot))))) =
   [ByListener ''connect'' (OnceWrap 7) 7]"
  using emitWhenReady_exactly_once
    [of "snd (SocketPage ''jobs'' boot)" 0 7 "[Tick 1, Signal Reconnect]"]
  by (simp add: eval_defs)

section \<open>Listener registration\<close>

lemma map_of_assign: "map_of (assign k v kvs) = (map_of kvs)(k \<mapsto> v)"
  by (induction kvs) (auto simp: fun_eq_iff)

lemma assign_keys: "fst ` set (assign k v kvs) = insert k (fst ` set kvs)"
  by (simp add: dom_map_of_conv_image_fst [symmetric] map_of_assign)

lemma assign_distinct: "distinct (map fst kvs) \<Longrightarrow> distinct (map fst (assign k v kvs))"
  by (induction kvs) (auto simp add: assign_keys)

lemma wraps_same: "wraps f l \<Longrightarrow> wraps g l \<Longrightarrow> f = g"
  by (cases l) auto

lemma count_splice_first:
  "length (filter (wraps f) (splice_first g ls)) =
     length (filter (wraps f) ls) - (if f = g then 1 else 0)"
  by (induction ls) (auto dest: wraps_same)

text \<open>The assignment touches \<open>listeners\<close> and its prototype only, and keeps keys unique.\<close>

lemma listeners_set_fields [simp]:
  "started (listeners_set st sc ev h) = started sc"
  "onReconnect_cb (listeners_set st sc ev h) = onReconnect_cb sc"
  "timers (listeners_set st sc ev h) = timers sc"
  "name (listeners_set st sc ev h) = name sc"
  by (simp_all add: listeners_set_def split: option.splits slot.splits)

lemma listeners_set_distinct:
  "distinct (map fst (listeners sc)) \<Longrightarrow>
   distinct (map fst (listeners (listeners_set st sc ev h)))"
  by (simp add: listeners_set_def assign_distinct split: option.splits slot.splits)

text \<open>What \<open>scope.on\<close> leaves alone.\<close>

lemma scope_on_frame [simp]:
  "connected (scope_on sid ev h st) = connected st"
  "hidden (scope_on sid ev h st) = hidden st"
  "intervals (scope_on sid ev h st) = intervals st"
  "next_timer (scope_on sid ev h st) = next_timer st"
  "slots (scope_on sid ev h st) = slots st"
  "trace (scope_on sid ev h st) = trace st"
  "length (scopes (scope_on sid ev h st)) = length (scopes st)"
  by (simp_all add: scope_on_def scope_on_outcome_def Let_def sock_on_def sock_off_def
      split: option.splits sum.splits)

lemma scope_on_scopes:
  "sid < length (scopes st) \<Longrightarrow>
   scopes (scope_on sid ev h st) =
     (scopes st)[sid := (case listeners_get st (scopes st ! sid) ev of
                           Inl e \<Rightarrow> scopes st ! sid
                         | Inr v \<Rightarrow> listeners_set st (scopes st ! sid) ev h)]"
  by (simp add: scope_on_def scope_on_outcome_def Let_def sock_on_def sock_off_def
      split: option.splits sum.splits)

lemma scope_on_flags:
  "started (scopes (scope_on s ev h st) ! sid) = started (scopes st ! sid)"
  "onReconnect_cb (scopes (scope_on s ev h st) ! sid) = onReconnect_cb (scopes st ! sid)"
  "timers (scopes (scope_on s ev h st) ! sid) = timers (scopes st ! sid)"
proof -
  have "started (scopes (scope_on s ev h st) ! sid) = started (scopes st ! sid) \<and>
        onReconnect_cb (scopes (scope_on s ev h st) ! sid) = onReconnect_cb (scopes st ! sid) \<and>
        timers (scopes (scope_on s ev h st) ! sid) = timers (scopes st ! sid)"
  proof (cases "s < length (scopes st)")
    case True
    then show ?thesis
      by (cases "sid = s") (simp_all add: scope_on_scopes split: sum.splits)
  next
    case False
    then show ?thesis by (simp add: scope_on_def)
  qed
  then show "started (scopes (scope_on s ev h st) ! sid) = started (scopes st ! sid)"
    and "onReconnect_cb (scopes (scope_on s ev h st) ! sid) = onReconnect_cb (scopes st ! sid)"
    and "timers (scopes (scope_on s ev h st) ! sid) = timers (scopes st ! sid)"
    by simp_all
qed

lemma scope_on_callbacks:
  "sid < length (scopes st) \<Longrightarrow>
   callbacks (scope_on sid ev h st) e =
     (case listeners_get st (scopes st ! sid) ev of
        Inl err \<Rightarrow> callbacks st e
      | Inr v \<Rightarrow>
          if e = ev
          then (case v of
                  Some old \<Rightarrow> splice_first old (callbacks st e)
                | None \<Rightarrow> callbacks st e) @ [Handler h]
          else callbacks st e)"
  by (simp add: scope_on_def scope_on_outcome_def Let_def sock_on_def sock_off_def
      split: option.splits sum.splits)

text \<open>
  Claim C1 asks that \<open>on(event, h1)\<close> followed by \<open>on(event, h2)\<close> leaves \<open>h2\<close> as the one live
  handler of the session for the event, \<open>h1\<close> having been unsubscribed. That is what
  \<open>scope.on\<close> is written for (lines 72-74: a unique listener, off + on), but its \<open>off\<close> is
  by function identity and also matches a \<open>once\<close> wrapper of the same function. On a page
  that is not connected yet, after \<open>emitWhenReady(f)\<close>, \<open>on('connect', f)\<close> and
  \<open>on('connect', g)\<close> the \<open>off\<close> of the second \<open>on\<close> has removed the queued wrapper of \<open>f\<close>
  instead of the handler \<open>f\<close>: both handlers of the session are subscribed, while the session
  records \<open>g\<close> only.
\<close>

theorem on_leaves_earlier_handler_subscribed:
  "callbacks (run [Create ''jobs'', EmitWhenReady 0 7, On 0 ''connect'' 7] boot) ''connect'' =
     [LifecycleLog, OnceWrap 7, Handler 7] \<and>
   callbacks (run [Create ''jobs'', EmitWhenReady 0 7, On 0 ''connect'' 7, On 0 ''connect'' 8] boot)
     ''connect'' = [LifecycleLog, Handler 7, Handler 8] \<and>
   listeners (scopes (run [Create ''jobs'', EmitWhenReady 0 7, On 0 ''connect'' 7,
     On 0 ''connect'' 8] boot) ! 0) = [(''connect'', 8)]"
  by (simp add: eval_defs)

section \<open>Cleanup\<close>

lemma filter_not_in_Cons:
  "filter (\<lambda>(k, iv). k \<notin> set ts) (filter (\<lambda>(k, iv). k \<noteq> t) xs) =
   filter (\<lambda>(k, iv). k \<notin> set (t # ts)) xs"
  by (induction xs) auto

lemma fold_clearInterval:
  "fold clearInterval ts st =
     st\<lparr>intervals := filter (\<lambda>(k, iv). k \<notin> set ts) (intervals st)\<rparr>"
proof (induction ts arbitrary: st)
  case Nil
  then show ?case by simp
next
  case (Cons t ts)
  have "fold clearInterval (t # ts) st = fold clearInterval ts (clearInterval t st)"
    by simp
  also have "\<dots> = (clearInterval t st)
      \<lparr>intervals := filter (\<lambda>(k, iv). k \<notin> set ts) (intervals (clearInterval t st))\<rparr>"
    by (rule Cons.IH)
  also have "\<dots> = st\<lparr>intervals := filter (\<lambda>(k, iv). k \<notin> set (t # ts)) (intervals st)\<rparr>"
    by (rule sys.equality) (simp_all add: clearInterval_def filter_not_in_Cons del: filter_filter)
  finally show ?case .
qed

lemma fold_sock_off:
  "fold (\<lambda>(ev, f). sock_off ev f) ls st = st\<lparr>callbacks := unsub ls (callbacks st)\<rparr>"
proof (induction ls arbitrary: st)
  case Nil
  then show ?case by simp
next
  case (Cons p ls)
  obtain ev f where p: "p = (ev, f)" by (cases p)
  have "fold (\<lambda>(ev, f). sock_off ev f) (p # ls) st =
        fold (\<lambda>(ev, f). sock_off ev f) ls (sock_off ev f st)"
    by (simp add: p)
  also have "\<dots> = (sock_off ev f st)\<lparr>callbacks := unsub ls (callbacks (sock_off ev f st))\<rparr>"
    by (rule Cons.IH)
  also have "\<dots> = st\<lparr>callbacks := unsub (p # ls) (callbacks st)\<rparr>"
    by (rule sys.equality) (simp_all add: sock_off_def p)
  finally show ?case .
qed

lemma unsub_apply:
  "distinct (map fst ls) \<Longrightarrow>
   unsub ls cb ev = (case map_of ls ev of None \<Rightarrow> cb ev | Some f \<Rightarrow> splice_first f (cb ev))"
proof (induction ls arbitrary: cb)
  case Nil
  then show ?case by simp
next
  case (Cons p ls)
  obtain e g where p: "p = (e, g)" by (cases p)
  from Cons.prems have d: "distinct (map fst ls)" and notin: "e \<notin> fst ` set ls"
    by (auto simp: p)
  from notin have none: "map_of ls e = None"
    by (simp add: map_of_eq_None_iff)
  show ?case
    by (simp add: p Cons.IH [OF d] none split: option.splits)
qed

lemma scope_cleanup_eq:
  "sid < length (scopes st) \<Longrightarrow>
   scope_cleanup sid st =
     st\<lparr>intervals := filter (\<lambda>(k, iv). k \<notin> set (timers (scopes st ! sid))) (intervals st),
        callbacks := unsub (listeners (scopes st ! sid)) (callbacks st),
        scopes := (scopes st)[sid := (scopes st ! sid)
                    \<lparr>timers := [], listeners := [], listeners_proto := None\<rparr>]\<rparr>"
  by (rule sys.equality)
     (simp_all add: scope_cleanup_def Let_def fold_clearInterval fold_sock_off)

lemma scope_cleanup_twice:
  "scope_cleanup sid (scope_cleanup sid st) = scope_cleanup sid st"
proof (cases "sid < length (scopes st)")
  case True
  let ?st1 = "scope_cleanup sid st"
  have len: "sid < length (scopes ?st1)"
    using True by (simp add: scope_cleanup_eq)
  have sc: "scopes ?st1 ! sid =
      (scopes st ! sid)\<lparr>timers := [], listeners := [], listeners_proto := None\<rparr>"
    using True by (simp add: scope_cleanup_eq)
  have "scope_cleanup sid ?st1 =
      ?st1\<lparr>intervals := filter (\<lambda>(k, iv). k \<notin> set (timers (scopes ?st1 ! sid))) (intervals ?st1),
        callbacks := unsub (listeners (scopes ?st1 ! sid)) (callbacks ?st1),
        scopes := (scopes ?st1)[sid := (scopes ?st1 ! sid)
                    \<lparr>timers := [], listeners := [], listeners_proto := None\<rparr>]\<rparr>"
    by (rule scope_cleanup_eq [OF len])
  also have "\<dots> = ?st1"
    by (rule sys.equality) (simp_all add: sc, simp add: scope_cleanup_eq [OF True])
  finally show ?thesis .
next
  case False
  then show ?thesis by (simp add: scope_cleanup_def)
qed

text \<open>
  The effect of \<open>cleanup()\<close> on any state: it leaves the session with no tracked timer and
  no own entry in \<open>listeners\<close>; every timer the session tracked is no longer in the browser's
  table of active intervals; for every own entry of \<open>listeners\<close> the first callback of the event
  that is or wraps the recorded function has been removed, and nothing else on the connection
  has changed; a second call changes nothing, and so any number of calls gives the state of the
  first. The operation has no failing branch: \<open>clearInterval\<close> and \<open>off\<close> accept handles and
  handlers that are not registered.
\<close>

lemma scope_cleanup_effect:
  assumes "sid < length (scopes st)"
      and "distinct (map fst (listeners (scopes st ! sid)))"
  shows "timers (scopes (scope_cleanup sid st) ! sid) = [] \<and>
         listeners (scopes (scope_cleanup sid st) ! sid) = [] \<and>
         (\<forall>t\<in>set (timers (scopes st ! sid)). map_of (intervals (scope_cleanup sid st)) t = None) \<and>
         (\<forall>ev. callbacks (scope_cleanup sid st) ev =
            (case tracked st sid ev of
               None \<Rightarrow> callbacks st ev
             | Some f \<Rightarrow> splice_first f (callbacks st ev))) \<and>
         (\<forall>ev f. live_count (scope_cleanup sid st) ev f =
            live_count st ev f - (if tracked st sid ev = Some f then 1 else 0)) \<and>
         scope_cleanup sid (scope_cleanup sid st) = scope_cleanup sid st \<and>
         (\<forall>n. (scope_cleanup sid ^^ Suc n) st = scope_cleanup sid st)"
proof -
  note eq = scope_cleanup_eq [OF assms(1)]
  have a: "timers (scopes (scope_cleanup sid st) ! sid) = []"
    using assms(1) by (simp add: eq)
  have b: "listeners (scopes (scope_cleanup sid st) ! sid) = []"
    using assms(1) by (simp add: eq)
  have c: "\<forall>t\<in>set (timers (scopes st ! sid)). map_of (intervals (scope_cleanup sid st)) t = None"
    by (auto simp add: eq map_of_eq_None_iff)
  have d: "\<forall>ev. callbacks (scope_cleanup sid st) ev =
            (case tracked st sid ev of
               None \<Rightarrow> callbacks st ev
             | Some f \<Rightarrow> splice_first f (callbacks st ev))"
    by (simp add: eq unsub_apply [OF assms(2)] tracked_def)
  have e: "\<forall>ev f. live_count (scope_cleanup sid st) ev f =
            live_count st ev f - (if tracked st sid ev = Some f then 1 else 0)"
    using d by (auto simp add: live_count_def count_splice_first split: option.splits)
  have g: "(scope_cleanup sid ^^ Suc n) st = scope_cleanup sid st" for n
    by (induction n) (simp_all add: scope_cleanup_twice)
  from a b c d e g show ?thesis
    by (simp only: scope_cleanup_twice simp_thms)
qed

text \<open>
  Claim C4 asks that \<open>cleanup()\<close> unsubscribes every binding of the session from the shared
  connection, clears every tracked timer, and is idempotent. Timers and idempotence are as
  claimed (\<open>scope_cleanup_effect\<close>), and so is the unsubscription as long as the recorded
  function of an event is met first by \<open>off\<close> as the handler itself. Two sequences of calls
  leave a handler of the session subscribed after \<open>cleanup()\<close>, although the session tracks
  nothing any more:

  \<^item> on a page that is not connected yet, \<open>emitWhenReady(f)\<close> then \<open>on('connect', f)\<close>: the \<open>off\<close>
    of \<open>cleanup()\<close> is by function identity, and the first callback of \<open>connect\<close> that is or
    wraps \<open>f\<close> is the queued \<open>once\<close> wrapper, so the wrapper is removed and the handler stays;

  \<^item> \<open>on('__proto__', f)\<close>: the assignment \<open>scope.listeners[event] = handler\<close> sets the prototype
    of the object literal and creates no entry, so \<open>Object.entries\<close> in \<open>cleanup()\<close> does not
    list the binding and \<open>off\<close> is never called for it.
\<close>

theorem cleanup_leaves_handler_subscribed:
  "tracked (run [Create ''jobs'', EmitWhenReady 0 7, On 0 ''connect'' 7] boot) 0 ''connect'' =
     Some 7 \<and>
   callbacks (run [Create ''jobs'', EmitWhenReady 0 7, On 0 ''connect'' 7] boot) ''connect'' =
     [LifecycleLog, OnceWrap 7, Handler 7] \<and>
   callbacks (run [Create ''jobs'', EmitWhenReady 0 7, On 0 ''connect'' 7, Cleanup 0] boot)
     ''connect'' = [LifecycleLog, Handler 7] \<and>
   listeners (scopes (run [Create ''jobs'', EmitWhenReady 0 7, On 0 ''connect'' 7, Cleanup 0]
     boot) ! 0) = [] \<and>
   callbacks (run [Create ''jobs'', On 0 ''__proto__'' 7] boot) ''__proto__'' = [Handler 7] \<and>
   listeners (scopes (run [Create ''jobs'', On 0 ''__proto__'' 7] boot) ! 0) = [] \<and>
   callbacks (run [Create ''jobs'', On 0 ''__proto__'' 7, Cleanup 0] boot) ''__proto__'' =
     [Handler 7]"
  by (simp add: eval_defs tracked_def)

section \<open>Polling\<close>

lemma fresh_handle_unused:
  "timers_fresh st \<Longrightarrow> map_of (intervals st) (next_timer st) = None"
  by (force simp add: timers_fresh_def map_of_eq_None_iff)

lemma scope_poll_eq:
  "sid < length (scopes st) \<Longrightarrow>
   scope_poll sid ms f immediate vis st =
     (if immediate then scope_emitWhenReady sid f st else st)
       \<lparr>intervals := intervals st @
            [(next_timer st, \<lparr>period = ms, visibleOnly = vis, callback = f\<rparr>)],
        next_timer := Suc (next_timer st),
        scopes := (scopes st)
            [sid := (scopes st ! sid)\<lparr>timers := timers (scopes st ! sid) @ [next_timer st]\<rparr>]\<rparr>"
  by (rule sys.equality)
     (simp_all add: scope_poll_def Let_def setInterval_def scope_emitWhenReady_def
        sock_once_def sock_on_def log_call_def)

lemma scope_poll_intervals:
  "sid < length (scopes st) \<Longrightarrow>
   intervals (scope_poll sid ms f immediate vis st) =
     intervals st @ [(next_timer st, \<lparr>period = ms, visibleOnly = vis, callback = f\<rparr>)]"
  by (simp add: scope_poll_eq)

lemma scope_poll_next_timer:
  "sid < length (scopes st) \<Longrightarrow>
   next_timer (scope_poll sid ms f immediate vis st) = Suc (next_timer st)"
  by (simp add: scope_poll_eq)

lemma scope_poll_timers:
  "sid < length (scopes st) \<Longrightarrow>
   timers (scopes (scope_poll sid ms f immediate vis st) ! sid) =
     timers (scopes st ! sid) @ [next_timer st]"
  by (simp add: scope_poll_eq)

lemma scope_poll_length [simp]:
  "length (scopes (scope_poll sid ms f immediate vis st)) = length (scopes st)"
  by (cases "sid < length (scopes st)") (simp_all add: scope_poll_eq, simp add: scope_poll_def)

lemma scope_poll_registers:
  "sid < length (scopes st) \<Longrightarrow> timers_fresh st \<Longrightarrow>
   map_of (intervals (scope_poll sid ms f immediate vis st)) t =
     (if t = next_timer st then Some \<lparr>period = ms, visibleOnly = vis, callback = f\<rparr>
      else map_of (intervals st) t)"
  using fresh_handle_unused [of st]
  by (auto simp add: scope_poll_intervals map_add_def split: option.splits)

lemma scope_poll_fresh:
  "sid < length (scopes st) \<Longrightarrow> timers_fresh st \<Longrightarrow>
   timers_fresh (scope_poll sid ms f immediate vis st)"
  by (auto simp add: timers_fresh_def scope_poll_intervals scope_poll_next_timer)

lemma tick_visible_only:
  "map_of (intervals s) t = Some \<lparr>period = ms, visibleOnly = True, callback = f\<rparr> \<Longrightarrow>
   env_step (Tick t) s = (if hidden s then s else log_call (ByTick t f) s)"
  by (simp add: tick_def)

lemma ticks_visible_only:
  "map_of (intervals s) t = Some \<lparr>period = ms, visibleOnly = True, callback = f\<rparr> \<Longrightarrow>
   trace (ticks t vs s) = trace s @ replicate (length (filter (\<lambda>v. v) vs)) (ByTick t f) \<and>
   intervals (ticks t vs s) = intervals s"
proof (induction vs arbitrary: s)
  case Nil
  then show ?case by (simp add: ticks_def)
next
  case (Cons v vs)
  let ?s1 = "env_step (Tick t) (env_step (Visibility v) s)"
  have i1: "intervals ?s1 = intervals s"
    using Cons.prems by (simp add: tick_def log_call_def)
  have t1: "trace ?s1 = trace s @ (if v then [ByTick t f] else [])"
    using Cons.prems by (simp add: tick_def log_call_def)
  have unfold: "ticks t (v # vs) s = ticks t vs ?s1"
    by (simp add: ticks_def)
  have reg: "map_of (intervals ?s1) t = Some \<lparr>period = ms, visibleOnly = True, callback = f\<rparr>"
    using Cons.prems by (simp only: i1)
  show ?case
    unfolding unfold using Cons.IH [OF reg]
    by (simp add: i1 t1 replicate_append_same del: env_step.simps)
qed

lemma session_state_facts:
  "0 < length (scopes (snd (SocketPage ''jobs'' boot)))"
  "timers_fresh (snd (SocketPage ''jobs'' boot))"
  "next_timer (snd (SocketPage ''jobs'' boot)) = 1"
  "\<not> connected (snd (SocketPage ''jobs'' boot))"
  by (simp_all add: eval_defs timers_fresh_def)

lemma poll_defaults:
  "scope_poll_opts sid ms f None None st = scope_poll sid ms f True True st"
  "scope_poll_opts sid ms f (Some i) (Some v) st = scope_poll sid ms f i v st"
  by (simp_all add: scope_poll_opts_def)

lemma poll_immediate_disconnected:
  "sid < length (scopes st) \<Longrightarrow> \<not> connected st \<Longrightarrow>
   scope_poll sid ms f True vis st = sock_once ''connect'' f (scope_poll sid ms f False vis st)"
  by (rule sys.equality)
     (simp_all add: scope_poll_eq scope_emitWhenReady_def sock_once_def sock_on_def)

lemma poll_immediate_connected:
  "sid < length (scopes st) \<Longrightarrow> connected st \<Longrightarrow>
   scope_poll sid ms f True vis st = log_call (Direct f) (scope_poll sid ms f False vis st)"
  by (rule sys.equality)
     (simp_all add: scope_poll_eq scope_emitWhenReady_def log_call_def)

lemma tick_fires:
  "map_of (intervals s) t = Some \<lparr>period = ms, visibleOnly = vis, callback = f\<rparr> \<Longrightarrow>
   \<not> vis \<or> \<not> hidden s \<Longrightarrow> env_step (Tick t) s = log_call (ByTick t f) s"
  by (auto simp add: tick_def)

text \<open>
  Claim C6. A timer created by \<open>poll(ms, fn, {visibleOnly: true})\<close> stays registered under
  its handle whatever the visibility of the tab. A firing of it while the tab is hidden
  leaves the whole state unchanged: nothing is called and nothing is queued for later. A
  firing while the tab is visible calls \<open>fn\<close> once. Over any series of firings, \<open>fn\<close> is
  called exactly as many times as there were firings with the tab visible.
\<close>

theorem hidden_ticks_skipped:
  assumes "sid < length (scopes st)" and "timers_fresh st"
  shows "map_of (intervals (scope_poll sid ms f immediate True st)) (next_timer st) =
           Some \<lparr>period = ms, visibleOnly = True, callback = f\<rparr> \<and>
         (\<forall>s. map_of (intervals s) (next_timer st) =
                 Some \<lparr>period = ms, visibleOnly = True, callback = f\<rparr> \<longrightarrow>
              env_step (Tick (next_timer st)) s =
                (if hidden s then s else log_call (ByTick (next_timer st) f) s)) \<and>
         (\<forall>vs. trace (ticks (next_timer st) vs (scope_poll sid ms f immediate True st)) =
                 trace (scope_poll sid ms f immediate True st) @
                 replicate (length (filter (\<lambda>v. v) vs)) (ByTick (next_timer st) f) \<and>
               intervals (ticks (next_timer st) vs (scope_poll sid ms f immediate True st)) =
                 intervals (scope_poll sid ms f immediate True st))"
proof -
  have reg: "map_of (intervals (scope_poll sid ms f immediate True st)) (next_timer st) =
           Some \<lparr>period = ms, visibleOnly = True, callback = f\<rparr>"
    using assms by (simp add: scope_poll_registers)
  show ?thesis
    using reg ticks_visible_only [OF reg] tick_visible_only
    by blast
qed

theorem hidden_ticks_skipped_witness:
  "0 < length (scopes (snd (SocketPage ''jobs'' boot))) \<and>
   timers_fresh (snd (SocketPage ''jobs'' boot)) \<and>
   trace (ticks 1 [False, False, False, True]
            (scope_poll 0 180000 7 True True (snd (SocketPage ''jobs'' boot)))) =
     trace (scope_poll 0 180000 7 True True (snd (SocketPage ''jobs'' boot))) @ [ByTick 1 7]"
proof -
  note T = hidden_ticks_skipped [OF session_state_facts(1,2), of 180000 7 True,
      unfolded session_state_facts(3)]
  from T have "trace (ticks 1 [False, False, False, True]
            (scope_poll 0 180000 7 True True (snd (SocketPage ''jobs'' boot)))) =
     trace (scope_poll 0 180000 7 True True (snd (SocketPage ''jobs'' boot))) @
     replicate (length (filter (\<lambda>v. v) [False, False, False, True])) (ByTick 1 7)"
    by blast
  then show ?thesis
    using session_state_facts(1,2) by simp
qed

text \<open>
  Claim C7, as stated, asks that \<open>poll(ms, fn, {immediate: true})\<close> has called \<open>fn\<close> once
  before the first tick of the interval. On a socket that is not connected this fails: the
  session of a freshly loaded page polls, nothing has been called when the interval fires
  for the first time, and the first call of \<open>fn\<close> is made by that tick.
\<close>

theorem poll_immediate_counterexample:
  "trace (scope_poll 0 180000 7 True True (snd (SocketPage ''jobs'' boot))) = [] \<and>
   trace (env_step (Tick 1)
            (scope_poll 0 180000 7 True True (snd (SocketPage ''jobs'' boot)))) = [ByTick 1 7]"
  by (simp add: eval_defs)

text \<open>
  Claim C7, amended. \<open>poll(ms, fn, {immediate: true})\<close> hands \<open>fn\<close> to \<open>emitWhenReady\<close>: on a
  connected socket \<open>fn\<close> is called once during the call of \<open>poll\<close>, hence before any tick of
  the new interval; on a disconnected socket nothing is called during \<open>poll\<close>, and the
  connect signal calls \<open>fn\<close> once (it may arrive after ticks of the interval). Apart from
  this one call, \<open>poll\<close> is \<open>poll\<close> without \<open>immediate\<close>, which calls nothing itself. In both
  cases the interval is registered with period \<open>ms\<close>, and each of its firings calls \<open>fn\<close>
  once when the tab is visible or \<open>visibleOnly\<close> is off.
\<close>

theorem poll_immediate_waits_for_connection:
  assumes "sid < length (scopes st)" and "timers_fresh st"
  shows "(connected st \<longrightarrow>
            scope_poll sid ms f True vis st =
              log_call (Direct f) (scope_poll sid ms f False vis st)) \<and>
         (\<not> connected st \<longrightarrow>
            trace (scope_poll sid ms f True vis st) = trace st \<and>
            env_step (Signal Connect) (scope_poll sid ms f True vis st) =
              log_call (ByListener ''connect'' (OnceWrap f) f)
                (env_step (Signal Connect) (scope_poll sid ms f False vis st))) \<and>
         trace (scope_poll sid ms f False vis st) = trace st \<and>
         map_of (intervals (scope_poll sid ms f True vis st)) (next_timer st) =
           Some \<lparr>period = ms, visibleOnly = vis, callback = f\<rparr> \<and>
         (\<forall>s. map_of (intervals s) (next_timer st) =
                 Some \<lparr>period = ms, visibleOnly = vis, callback = f\<rparr> \<longrightarrow>
              \<not> vis \<or> \<not> hidden s \<longrightarrow>
              env_step (Tick (next_timer st)) s = log_call (ByTick (next_timer st) f) s)"
proof (intro conjI impI allI)
  assume c: "connected st"
  show "scope_poll sid ms f True vis st = log_call (Direct f) (scope_poll sid ms f False vis st)"
    by (rule poll_immediate_connected [OF assms(1) c])
next
  assume d: "\<not> connected st"
  show "trace (scope_poll sid ms f True vis st) = trace st"
    using assms(1) d by (simp add: scope_poll_eq scope_emitWhenReady_def sock_once_def sock_on_def)
  show "env_step (Signal Connect) (scope_poll sid ms f True vis st) =
              log_call (ByListener ''connect'' (OnceWrap f) f)
                (env_step (Signal Connect) (scope_poll sid ms f False vis st))"
    by (simp only: poll_immediate_disconnected [OF assms(1) d] connect_after_once)
next
  show "trace (scope_poll sid ms f False vis st) = trace st"
    using assms(1) by (simp add: scope_poll_eq)
next
  show "map_of (intervals (scope_poll sid ms f True vis st)) (next_timer st) =
           Some \<lparr>period = ms, visibleOnly = vis, callback = f\<rparr>"
    using assms by (simp add: scope_poll_registers)
next
  fix s :: sys
  assume "map_of (intervals s) (next_timer st) =
                 Some \<lparr>period = ms, visibleOnly = vis, callback = f\<rparr>"
    and "\<not> vis \<or> \<not> hidden s"
  then show "env_step (Tick (next_timer st)) s = log_call (ByTick (next_timer st) f) s"
    by (rule tick_fires)
qed

theorem poll_immediate_waits_for_connection_witness:
  "0 < length (scopes (snd (SocketPage ''jobs'' boot))) \<and>
   timers_fresh (snd (SocketPage ''jobs'' boot)) \<and>
   \<not> connected (snd (SocketPage ''jobs'' boot)) \<and>
   trace (scope_poll 0 180000 7 True True (snd (SocketPage ''jobs'' boot))) =
     trace (snd (SocketPage ''jobs'' boot)) \<and>
   env_step (Signal Connect) (scope_poll 0 180000 7 True True (snd (SocketPage ''jobs'' boot))) =
     log_call (ByListener ''connect'' (OnceWrap 7) 7)
       (env_step (Signal Connect)
          (scope_poll 0 180000 7 False True (snd (SocketPage ''jobs'' boot))))"
  using poll_immediate_waits_for_connection [OF session_state_facts(1,2), of 180000 7 True]
    session_state_facts
  by blast

text \<open>
  Claim C8. A call of \<open>poll\<close> leaves every interval that was active before it registered as
  it was; the new interval gets a handle that was not in use, and that handle is appended
  to the session's \<open>timers\<close>. After a second \<open>poll\<close> with the same function, both intervals
  are active under different handles, both calling that function, and both handles are
  tracked in the order of the calls.
\<close>

theorem poll_keeps_earlier_timers:
  assumes "sid < length (scopes st)" and "timers_fresh st"
  shows "(\<forall>t iv. map_of (intervals st) t = Some iv \<longrightarrow>
            map_of (intervals (scope_poll sid ms f immediate vis st)) t = Some iv) \<and>
         map_of (intervals st) (next_timer st) = None \<and>
         map_of (intervals (scope_poll sid ms f immediate vis st)) (next_timer st) =
           Some \<lparr>period = ms, visibleOnly = vis, callback = f\<rparr> \<and>
         timers (scopes (scope_poll sid ms f immediate vis st) ! sid) =
           timers (scopes st ! sid) @ [next_timer st] \<and>
         timers_fresh (scope_poll sid ms f immediate vis st) \<and>
         (let st1 = scope_poll sid ms f immediate vis st;
              st2 = scope_poll sid ms2 f immediate2 vis2 st1
          in next_timer st1 \<noteq> next_timer st \<and>
             map_of (intervals st2) (next_timer st) =
               Some \<lparr>period = ms, visibleOnly = vis, callback = f\<rparr> \<and>
             map_of (intervals st2) (next_timer st1) =
               Some \<lparr>period = ms2, visibleOnly = vis2, callback = f\<rparr> \<and>
             timers (scopes st2 ! sid) =
               timers (scopes st ! sid) @ [next_timer st, next_timer st1])"
proof -
  let ?st1 = "scope_poll sid ms f immediate vis st"
  have v1: "sid < length (scopes ?st1)" using assms(1) by simp
  have f1: "timers_fresh ?st1" by (rule scope_poll_fresh [OF assms])
  have n1: "next_timer ?st1 = Suc (next_timer st)"
    by (rule scope_poll_next_timer [OF assms(1)])
  have unused: "map_of (intervals st) (next_timer st) = None"
    by (rule fresh_handle_unused [OF assms(2)])
  have a: "\<forall>t iv. map_of (intervals st) t = Some iv \<longrightarrow> map_of (intervals ?st1) t = Some iv"
    using unused by (auto simp add: scope_poll_registers [OF assms])
  have b: "map_of (intervals ?st1) (next_timer st) =
           Some \<lparr>period = ms, visibleOnly = vis, callback = f\<rparr>"
    by (simp add: scope_poll_registers [OF assms])
  have c: "timers (scopes ?st1 ! sid) = timers (scopes st ! sid) @ [next_timer st]"
    by (rule scope_poll_timers [OF assms(1)])
  have d: "map_of (intervals (scope_poll sid ms2 f immediate2 vis2 ?st1)) (next_timer st) =
               Some \<lparr>period = ms, visibleOnly = vis, callback = f\<rparr>"
    by (simp add: scope_poll_registers [OF v1 f1] n1 b)
  have e: "map_of (intervals (scope_poll sid ms2 f immediate2 vis2 ?st1)) (next_timer ?st1) =
               Some \<lparr>period = ms2, visibleOnly = vis2, callback = f\<rparr>"
    by (simp add: scope_poll_registers [OF v1 f1])
  have g: "timers (scopes (scope_poll sid ms2 f immediate2 vis2 ?st1) ! sid) =
               timers (scopes st ! sid) @ [next_timer st, next_timer ?st1]"
    by (simp add: scope_poll_timers [OF v1] c)
  show ?thesis
    unfolding Let_def using a unused b c f1 d e g n1 by simp
qed

theorem poll_keeps_earlier_timers_witness:
  "0 < length (scopes (snd (SocketPage ''jobs'' boot))) \<and>
   timers_fresh (snd (SocketPage ''jobs'' boot)) \<and>
   map_of (intervals (scope_poll 0 60000 7 False True
      (scope_poll 0 180000 7 True True (snd (SocketPage ''jobs'' boot))))) 1 =
     Some \<lparr>period = 180000, visibleOnly = True, callback = 7\<rparr> \<and>
   map_of (intervals (scope_poll 0 60000 7 False True
      (scope_poll 0 180000 7 True True (snd (SocketPage ''jobs'' boot))))) 2 =
     Some \<lparr>period = 60000, visibleOnly = True, callback = 7\<rparr> \<and>
   timers (scopes (scope_poll 0 60000 7 False True
      (scope_poll 0 180000 7 True True (snd (SocketPage ''jobs'' boot)))) ! 0) = [1, 2]"
proof -
  have t0: "timers (scopes (snd (SocketPage ''jobs'' boot)) ! 0) = []"
    by (simp add: eval_defs)
  have n1: "next_timer (scope_poll 0 180000 7 True True (snd (SocketPage ''jobs'' boot))) = 2"
    using scope_poll_next_timer [OF session_state_facts(1), of 180000 7 True True]
    by (simp add: session_state_facts(3))
  show ?thesis
    using poll_keeps_earlier_timers [OF session_state_facts(1,2),
        of 180000 7 True True 60000 False True]
      session_state_facts(1,2)
    by (simp add: Let_def session_state_facts(3) t0 n1)
qed

section \<open>The reconnect closure\<close>

lemma hook_ids_append [simp]: "hook_ids (xs @ ys) = hook_ids xs @ hook_ids ys"
  by (induction xs rule: hook_ids.induct) simp_all

lemma hook_ids_splice_first [simp]: "hook_ids (splice_first f ls) = hook_ids ls"
  by (induction ls rule: hook_ids.induct) auto

lemma hook_ids_filter_once [simp]: "hook_ids (filter (\<lambda>l. \<not> is_once l) ls) = hook_ids ls"
  by (induction ls rule: hook_ids.induct) auto

lemma hook_ids_unsub [simp]: "hook_ids (unsub ls cb ev) = hook_ids (cb ev)"
  by (induction ls arbitrary: cb) auto

lemma hook_ids_mem: "s \<in> set (hook_ids ls) \<longleftrightarrow> ReconnectHook s \<in> set ls"
  by (induction ls rule: hook_ids.induct) auto

lemma reconnect_name_differs: "''reconnect.'' @ nm \<noteq> ''reconnect''"
  by simp

text \<open>What each action does to the reconnect callback list and to the scope store.\<close>

lemma env_step_scopes [simp]: "scopes (env_step e st) = scopes st"
  by (cases "(e, st)" rule: env_step.cases)
     (simp_all add: sock_emit_eq tick_def log_call_def split: option.splits)

lemma env_step_hook_ids [simp]:
  "hook_ids (callbacks (env_step e st) ev) = hook_ids (callbacks st ev)"
  by (cases "(e, st)" rule: env_step.cases)
     (simp_all add: sock_emit_eq tick_def log_call_def split: option.splits)

lemma scope_cleanup_hook_ids [simp]:
  "hook_ids (callbacks (scope_cleanup sid st) ev) = hook_ids (callbacks st ev)"
  by (cases "sid < length (scopes st)") (simp_all add: scope_cleanup_eq, simp add: scope_cleanup_def)

lemma step_hook_ids:
  "hook_ids (callbacks (step a st) ''reconnect'') =
     hook_ids (callbacks st ''reconnect'') @
       (case a of Create nm \<Rightarrow> [length (scopes st)] | _ \<Rightarrow> [])"
proof (cases a)
  case (Create nm)
  then show ?thesis
    by (simp add: SocketPage_def Let_def sock_on_def sock_off_all_def)
next
  case (On sid ev h)
  then show ?thesis
    by (simp add: scope_on_def scope_on_outcome_def Let_def sock_on_def sock_off_def
        split: option.splits sum.splits)
next
  case (EmitWhenReady sid f)
  then show ?thesis
    by (simp add: scope_emitWhenReady_def sock_once_def sock_on_def log_call_def)
next
  case (Poll sid ms f immediate vis)
  then show ?thesis
    by (cases "sid < length (scopes st)")
       (simp_all add: scope_poll_eq scope_emitWhenReady_def sock_once_def sock_on_def log_call_def,
        simp add: scope_poll_def)
next
  case (Cleanup sid)
  then show ?thesis by simp
next
  case (OnReconnect sid f)
  then show ?thesis by (simp add: scope_onReconnect_def)
next
  case (MarkStarted sid)
  then show ?thesis by (simp add: scope_markStarted_def)
next
  case (SocketOn ev f)
  then show ?thesis by (simp add: sock_on_def)
next
  case (Env e)
  then show ?thesis by simp
qed

lemma step_length:
  "length (scopes (step a st)) =
     length (scopes st) + (case a of Create nm \<Rightarrow> 1 | _ \<Rightarrow> 0)"
proof (cases a)
  case (Create nm)
  then show ?thesis
    by (simp add: SocketPage_def Let_def sock_on_def sock_off_all_def)
next
  case (Cleanup sid)
  then show ?thesis
    by (cases "sid < length (scopes st)") (simp_all add: scope_cleanup_eq, simp add: scope_cleanup_def)
qed (simp_all add: scope_emitWhenReady_def sock_once_def sock_on_def log_call_def
      scope_onReconnect_def scope_markStarted_def)

lemma step_hooks_installed: "hooks_installed st \<Longrightarrow> hooks_installed (step a st)"
  unfolding hooks_installed_def step_hook_ids step_length
  by (cases a) simp_all

lemma run_hooks_installed: "hooks_installed st \<Longrightarrow> hooks_installed (run acts st)"
  unfolding run_def
  by (induction acts arbitrary: st) (simp_all add: step_hooks_installed)

lemma boot_hooks_installed: "hooks_installed boot"
  by (simp add: hooks_installed_def boot_def new_socket_def sock_on_def sock_off_all_def)

lemma step_started:
  assumes "sid < length (scopes st)"
  shows "started (scopes (step a st) ! sid) = (started (scopes st ! sid) \<or> a = MarkStarted sid)"
proof (cases a)
  case (Create nm)
  with assms show ?thesis
    by (simp add: SocketPage_def Let_def sock_on_def sock_off_all_def nth_append)
next
  case (On s ev h)
  with assms show ?thesis
    by (simp add: scope_on_flags)
next
  case (Poll s ms f immediate vis)
  with assms show ?thesis
    by (cases "s < length (scopes st)")
       (simp_all add: scope_poll_eq nth_list_update, simp add: scope_poll_def)
next
  case (Cleanup s)
  with assms show ?thesis
    by (cases "s < length (scopes st)")
       (simp_all add: scope_cleanup_eq nth_list_update, simp add: scope_cleanup_def)
next
  case (EmitWhenReady s f)
  with assms show ?thesis
    by (simp add: scope_emitWhenReady_def sock_once_def sock_on_def log_call_def)
next
  case (OnReconnect s f)
  with assms show ?thesis
    by (auto simp add: scope_onReconnect_def nth_list_update)
next
  case (MarkStarted s)
  with assms show ?thesis
    by (auto simp add: scope_markStarted_def nth_list_update)
next
  case (SocketOn ev f)
  with assms show ?thesis by (simp add: sock_on_def)
next
  case (Env e)
  with assms show ?thesis by simp
qed

lemma step_onReconnect:
  assumes "sid < length (scopes st)"
  shows "onReconnect_cb (scopes (step a st) ! sid) =
     (case a of
        OnReconnect s f \<Rightarrow> if s = sid then Some f else onReconnect_cb (scopes st ! sid)
      | _ \<Rightarrow> onReconnect_cb (scopes st ! sid))"
proof (cases a)
  case (Create nm)
  with assms show ?thesis
    by (simp add: SocketPage_def Let_def sock_on_def sock_off_all_def nth_append)
next
  case (On s ev h)
  with assms show ?thesis
    by (simp add: scope_on_flags)
next
  case (Poll s ms f immediate vis)
  with assms show ?thesis
    by (cases "s < length (scopes st)")
       (simp_all add: scope_poll_eq nth_list_update, simp add: scope_poll_def)
next
  case (Cleanup s)
  with assms show ?thesis
    by (cases "s < length (scopes st)")
       (simp_all add: scope_cleanup_eq nth_list_update, simp add: scope_cleanup_def)
next
  case (EmitWhenReady s f)
  with assms show ?thesis
    by (simp add: scope_emitWhenReady_def sock_once_def sock_on_def log_call_def)
next
  case (OnReconnect s f)
  with assms show ?thesis
    by (auto simp add: scope_onReconnect_def nth_list_update)
next
  case (MarkStarted s)
  with assms show ?thesis
    by (auto simp add: scope_markStarted_def nth_list_update)
next
  case (SocketOn ev f)
  with assms show ?thesis by (simp add: sock_on_def)
next
  case (Env e)
  with assms show ?thesis by simp
qed

lemma step_keeps_valid: "sid < length (scopes st) \<Longrightarrow> sid < length (scopes (step a st))"
  by (simp add: step_length)

lemma run_keeps_valid: "sid < length (scopes st) \<Longrightarrow> sid < length (scopes (run acts st))"
  unfolding run_def
  by (induction acts arbitrary: st) (simp_all add: step_keeps_valid del: step.simps)

lemma run_started:
  "sid < length (scopes st) \<Longrightarrow>
   started (scopes (run acts st) ! sid) = (started (scopes st ! sid) \<or> MarkStarted sid \<in> set acts)"
  unfolding run_def
proof (induction acts arbitrary: st)
  case Nil
  then show ?case by simp
next
  case (Cons a acts)
  have "started (scopes (fold step acts (step a st)) ! sid) =
        (started (scopes (step a st) ! sid) \<or> MarkStarted sid \<in> set acts)"
    by (rule Cons.IH) (rule step_keeps_valid [OF Cons.prems])
  then show ?case
    by (auto simp add: step_started [OF Cons.prems] simp del: step.simps)
qed

lemma run_onReconnect:
  "sid < length (scopes st) \<Longrightarrow>
   onReconnect_cb (scopes (run acts st) ! sid) =
     (case last_onReconnect sid acts of
        Some f \<Rightarrow> Some f
      | None \<Rightarrow> onReconnect_cb (scopes st ! sid))"
  unfolding run_def
proof (induction acts arbitrary: st)
  case Nil
  then show ?case by simp
next
  case (Cons a acts)
  have "onReconnect_cb (scopes (fold step acts (step a st)) ! sid) =
     (case last_onReconnect sid acts of
        Some f \<Rightarrow> Some f
      | None \<Rightarrow> onReconnect_cb (scopes (step a st) ! sid))"
    by (rule Cons.IH) (rule step_keeps_valid [OF Cons.prems])
  then show ?case
    by (simp add: step_onReconnect [OF Cons.prems] del: step.simps
        split: option.splits action.splits)
qed

text \<open>The calls a reconnect signal adds on behalf of one scope's closure.\<close>

lemma hook_calls_append [simp]: "hook_calls sid (xs @ ys) = hook_calls sid xs @ hook_calls sid ys"
  by (simp add: hook_calls_def)

lemma hook_calls_of_hook:
  "hook_calls sid (calls_of scs ev (ReconnectHook s)) =
     (if s = sid then hook_fires scs s else [])"
proof (cases "s < length scs \<and> started (scs ! s)")
  case True
  show ?thesis
  proof (cases "onReconnect_cb (scs ! s)")
    case None
    with True have c: "calls_of scs ev (ReconnectHook s) = []" by simp
    from True None have h: "hook_fires scs s = []" by (simp add: hook_fires_def)
    show ?thesis unfolding c h by (simp add: hook_calls_def)
  next
    case (Some f)
    with True have c: "calls_of scs ev (ReconnectHook s) = [ByListener ev (ReconnectHook s) f]"
      by simp
    from True Some have h: "hook_fires scs s = [f]" by (simp add: hook_fires_def)
    show ?thesis unfolding c h by (simp add: hook_calls_def)
  qed
next
  case False
  then have c: "calls_of scs ev (ReconnectHook s) = []" by auto
  from False have h: "hook_fires scs s = []" by (auto simp add: hook_fires_def)
  show ?thesis unfolding c h by (simp add: hook_calls_def)
qed

lemma hook_calls_of_listener:
  "hook_calls sid (calls_of scs ev l) =
     (case l of ReconnectHook s \<Rightarrow> if s = sid then hook_fires scs s else [] | _ \<Rightarrow> [])"
proof (cases l)
  case (ReconnectHook s)
  then show ?thesis by (simp only: hook_calls_of_hook listener.case)
qed (simp_all add: hook_calls_def)

lemma hook_calls_of_list:
  "hook_calls sid (concat (map (calls_of scs ev) ls)) =
     concat (map (\<lambda>s. if s = sid then hook_fires scs s else []) (hook_ids ls))"
proof (induction ls)
  case Nil
  then show ?case by (simp add: hook_calls_def)
next
  case (Cons l ls)
  then show ?case
    by (cases l) (simp_all add: hook_calls_of_listener del: calls_of.simps)
qed

lemma concat_single_none:
  "n \<le> sid \<Longrightarrow> concat (map (\<lambda>s. if s = sid then F s else []) [0..<n]) = []"
proof (induction n)
  case 0
  then show ?case by simp
next
  case (Suc n)
  then show ?case by simp
qed

lemma concat_single:
  "sid < n \<Longrightarrow> concat (map (\<lambda>s. if s = sid then F s else []) [0..<n]) = F sid"
proof (induction n)
  case 0
  then show ?case by simp
next
  case (Suc n)
  show ?case
  proof (cases "sid = n")
    case True
    then show ?thesis by (simp add: concat_single_none)
  next
    case False
    with Suc.prems have "sid < n" by simp
    with Suc.IH False show ?thesis by simp
  qed
qed

lemma reconnect_hook_calls:
  "hook_calls sid (trace (env_step (Signal Reconnect) st)) =
     hook_calls sid (trace st) @
     concat (map (\<lambda>s. if s = sid then hook_fires (scopes st) s else [])
               (hook_ids (callbacks st ''reconnect'')))"
  by (simp add: sock_emit_eq hook_calls_of_list)

lemma reconnect_hook_calls_installed:
  "hooks_installed st \<Longrightarrow> sid < length (scopes st) \<Longrightarrow>
   hook_calls sid (trace (env_step (Signal Reconnect) st)) =
     hook_calls sid (trace st) @ hook_fires (scopes st) sid"
  by (simp add: reconnect_hook_calls hooks_installed_def concat_single del: env_step.simps)

lemma SocketPage_new_scope:
  "fst (SocketPage nm st) = length (scopes st)"
  "scopes (snd (SocketPage nm st)) =
     scopes st @ [\<lparr>name = nm, timers = [], listeners = [], listeners_proto = None,
                  started = False, onReconnect_cb = None\<rparr>]"
  by (simp_all add: SocketPage_def Let_def sock_on_def sock_off_all_def)

text \<open>
  Claim C5. Take a session from its creation by \<open>SocketPage\<close> through any run of actions
  (method calls of this and of other sessions, creation of further sessions, direct
  subscriptions on the socket, signals, inbound events, ticks). When a reconnect signal arrives after the run, the session's reconnect
  closure calls nothing if the run contains no \<open>markStarted()\<close> of the session; if it does,
  the closure calls the callback that the session's last \<open>onReconnect\<close> registered, exactly
  once (and nothing when no callback was registered).
\<close>

theorem reconnect_gated_by_started:
  assumes "hooks_installed st0"
  shows "let sid = fst (SocketPage nm st0);
             st = run acts (snd (SocketPage nm st0))
         in hook_calls sid (trace (env_step (Signal Reconnect) st)) =
              hook_calls sid (trace st) @
              (if MarkStarted sid \<in> set acts
               then (case last_onReconnect sid acts of Some f \<Rightarrow> [f] | None \<Rightarrow> [])
               else [])"
proof -
  let ?sid = "length (scopes st0)"
  let ?st1 = "snd (SocketPage nm st0)"
  let ?st = "run acts ?st1"
  have v1: "?sid < length (scopes ?st1)"
    by (simp add: SocketPage_new_scope)
  have v: "?sid < length (scopes ?st)"
    by (rule run_keeps_valid [OF v1])
  have "hooks_installed (step (Create nm) st0)"
    by (rule step_hooks_installed [OF assms])
  then have "hooks_installed ?st1" by simp
  then have inst: "hooks_installed ?st" by (rule run_hooks_installed)
  have s: "started (scopes ?st ! ?sid) = (MarkStarted ?sid \<in> set acts)"
    by (simp add: run_started [OF v1] SocketPage_new_scope)
  have r: "onReconnect_cb (scopes ?st ! ?sid) = last_onReconnect ?sid acts"
    by (simp add: run_onReconnect [OF v1] SocketPage_new_scope split: option.splits)
  have "hook_calls ?sid (trace (env_step (Signal Reconnect) ?st)) =
          hook_calls ?sid (trace ?st) @ hook_fires (scopes ?st) ?sid"
    by (rule reconnect_hook_calls_installed [OF inst v])
  also have "hook_fires (scopes ?st) ?sid =
      (if MarkStarted ?sid \<in> set acts
       then (case last_onReconnect ?sid acts of Some f \<Rightarrow> [f] | None \<Rightarrow> [])
       else [])"
    using v by (simp add: hook_fires_def s r)
  finally show ?thesis
    by (simp add: SocketPage_new_scope(1) Let_def)
qed

theorem reconnect_gated_by_started_witness:
  "hooks_installed boot \<and>
   fst (SocketPage ''jobs'' boot) = 0 \<and>
   hook_calls 0 (trace (env_step (Signal Reconnect)
       (run [OnReconnect 0 5, Env (Signal Reconnect)] (snd (SocketPage ''jobs'' boot))))) = [] \<and>
   hook_calls 0 (trace (env_step (Signal Reconnect)
       (run [OnReconnect 0 5, Env (Signal Reconnect), MarkStarted 0]
          (snd (SocketPage ''jobs'' boot))))) = [5]"
proof -
  have sid: "fst (SocketPage ''jobs'' boot) = 0"
    by (simp add: SocketPage_new_scope boot_def new_socket_def sock_on_def sock_off_all_def)
  have before: "hook_calls 0 (trace (run [OnReconnect 0 5, Env (Signal Reconnect)]
      (snd (SocketPage ''jobs'' boot)))) = []"
    by (simp add: eval_defs hook_calls_def)
  have after: "hook_calls 0 (trace (run [OnReconnect 0 5, Env (Signal Reconnect), MarkStarted 0]
      (snd (SocketPage ''jobs'' boot)))) = []"
    by (simp add: eval_defs hook_calls_def)
  have a: "hook_calls 0 (trace (env_step (Signal Reconnect)
       (run [OnReconnect 0 5, Env (Signal Reconnect)] (snd (SocketPage ''jobs'' boot))))) = []"
    using reconnect_gated_by_started [OF boot_hooks_installed, of "''jobs''"
        "[OnReconnect 0 5, Env (Signal Reconnect)]"]
    by (simp add: Let_def sid before del: env_step.simps)
  have b: "hook_calls 0 (trace (env_step (Signal Reconnect)
       (run [OnReconnect 0 5, Env (Signal Reconnect), MarkStarted 0]
          (snd (SocketPage ''jobs'' boot))))) = [5]"
    using reconnect_gated_by_started [OF boot_hooks_installed, of "''jobs''"
        "[OnReconnect 0 5, Env (Signal Reconnect), MarkStarted 0]"]
    by (simp add: Let_def sid after del: env_step.simps)
  from boot_hooks_installed sid a b show ?thesis by simp
qed

lemma run_keeps_hooks:
  "s \<in> set (hook_ids (callbacks st ''reconnect'')) \<Longrightarrow>
   s \<in> set (hook_ids (callbacks (run acts st) ''reconnect''))"
  unfolding run_def
proof (induction acts arbitrary: st)
  case Nil
  then show ?case by simp
next
  case (Cons a acts)
  from Cons.prems have "s \<in> set (hook_ids (callbacks (step a st) ''reconnect''))"
    by (simp only: step_hook_ids set_append Un_iff simp_thms)
  then show ?case
    using Cons.IH by simp
qed

lemma SocketPage_installs_hook:
  "ReconnectHook (fst (SocketPage nm st)) \<in> set (callbacks (snd (SocketPage nm st)) ''reconnect'')"
  "listeners (scopes (snd (SocketPage nm st)) ! fst (SocketPage nm st)) = []"
  by (simp_all add: SocketPage_def Let_def sock_on_def sock_off_all_def)

lemma scope_cleanup_keeps_flags:
  "sid < length (scopes st) \<Longrightarrow>
   started (scopes (scope_cleanup s st) ! sid) = started (scopes st ! sid) \<and>
   onReconnect_cb (scopes (scope_cleanup s st) ! sid) = onReconnect_cb (scopes st ! sid) \<and>
   length (scopes (scope_cleanup s st)) = length (scopes st)"
  using step_started [of sid st "Cleanup s"] step_onReconnect [of sid st "Cleanup s"]
    step_length [of "Cleanup s" st]
  by simp

lemma hook_call_in_emission:
  assumes "ReconnectHook sid \<in> set ls" and "sid < length scs" and "started (scs ! sid)"
      and "onReconnect_cb (scs ! sid) = Some f"
  shows "ByListener ev (ReconnectHook sid) f \<in> set (concat (map (calls_of scs ev) ls))"
proof -
  have "calls_of scs ev (ReconnectHook sid) = [ByListener ev (ReconnectHook sid) f]"
    using assms(2-4) by simp
  then have "ByListener ev (ReconnectHook sid) f \<in> set (calls_of scs ev (ReconnectHook sid))"
    by simp
  with assms(1) show ?thesis
    by (auto simp del: calls_of.simps)
qed

text \<open>
  Claim C10. \<open>SocketPage\<close> subscribes the reconnect closure without recording it in
  \<open>listeners\<close> (which starts empty), and the closure stays subscribed through every run of
  actions. \<open>cleanup()\<close> never removes a reconnect closure from any callback list. So in a
  state where the session is started and has a reconnect callback, a reconnect signal after
  \<open>cleanup()\<close> still makes the closure call that callback; exactly once when, as in every
  state reached from start-up, each closure is subscribed once.
\<close>

theorem reconnect_hook_survives_cleanup:
  "listeners (scopes (snd (SocketPage nm st0)) ! fst (SocketPage nm st0)) = [] \<and>
   (\<forall>acts. ReconnectHook (fst (SocketPage nm st0)) \<in>
             set (callbacks (run acts (snd (SocketPage nm st0))) ''reconnect'')) \<and>
   (\<forall>ev. hook_ids (callbacks (scope_cleanup sid st) ev) = hook_ids (callbacks st ev)) \<and>
   (sid < length (scopes st) \<longrightarrow>
    ReconnectHook sid \<in> set (callbacks st ''reconnect'') \<longrightarrow>
    started (scopes st ! sid) \<longrightarrow>
    onReconnect_cb (scopes st ! sid) = Some f \<longrightarrow>
      ReconnectHook sid \<in> set (callbacks (scope_cleanup sid st) ''reconnect'') \<and>
      (\<exists>new. trace (env_step (Signal Reconnect) (scope_cleanup sid st)) =
                trace (scope_cleanup sid st) @ new \<and>
             ByListener ''reconnect'' (ReconnectHook sid) f \<in> set new) \<and>
      (hooks_installed st \<longrightarrow>
         hook_calls sid (trace (env_step (Signal Reconnect) (scope_cleanup sid st))) =
           hook_calls sid (trace (scope_cleanup sid st)) @ [f]))"
proof (intro conjI allI impI)
  show "listeners (scopes (snd (SocketPage nm st0)) ! fst (SocketPage nm st0)) = []"
    by (rule SocketPage_installs_hook)
next
  fix acts
  have "fst (SocketPage nm st0) \<in> set (hook_ids (callbacks (snd (SocketPage nm st0)) ''reconnect''))"
    by (simp only: hook_ids_mem SocketPage_installs_hook)
  then show "ReconnectHook (fst (SocketPage nm st0)) \<in>
             set (callbacks (run acts (snd (SocketPage nm st0))) ''reconnect'')"
    by (simp only: hook_ids_mem [symmetric] run_keeps_hooks)
next
  fix ev
  show "hook_ids (callbacks (scope_cleanup sid st) ev) = hook_ids (callbacks st ev)"
    by simp
next
  assume v: "sid < length (scopes st)"
    and h: "ReconnectHook sid \<in> set (callbacks st ''reconnect'')"
    and s: "started (scopes st ! sid)"
    and r: "onReconnect_cb (scopes st ! sid) = Some f"
  let ?st' = "scope_cleanup sid st"
  note flags = scope_cleanup_keeps_flags [OF v, of sid]
  from h have "sid \<in> set (hook_ids (callbacks ?st' ''reconnect''))"
    by (simp add: hook_ids_mem)
  then show h': "ReconnectHook sid \<in> set (callbacks ?st' ''reconnect'')"
    by (simp only: hook_ids_mem)
  have "ByListener ''reconnect'' (ReconnectHook sid) f \<in>
          set (concat (map (calls_of (scopes ?st') ''reconnect'') (callbacks ?st' ''reconnect'')))"
    by (rule hook_call_in_emission [OF h']) (simp_all add: flags v s r)
  moreover have "trace (env_step (Signal Reconnect) ?st') =
      trace ?st' @ concat (map (calls_of (scopes ?st') ''reconnect'') (callbacks ?st' ''reconnect''))"
    by (simp add: sock_emit_eq)
  ultimately show "\<exists>new. trace (env_step (Signal Reconnect) ?st') = trace ?st' @ new \<and>
             ByListener ''reconnect'' (ReconnectHook sid) f \<in> set new"
    by blast
  {
    assume inst: "hooks_installed st"
    have "hooks_installed (step (Cleanup sid) st)"
      by (rule step_hooks_installed [OF inst])
    then have inst': "hooks_installed ?st'" by simp
    have v': "sid < length (scopes ?st')" by (simp add: flags v)
    have "hook_fires (scopes ?st') sid = [f]"
      by (simp add: hook_fires_def flags v s r)
    with reconnect_hook_calls_installed [OF inst' v']
    show "hook_calls sid (trace (env_step (Signal Reconnect) ?st')) =
           hook_calls sid (trace ?st') @ [f]"
      by simp
  }
qed

theorem reconnect_hook_survives_cleanup_witness:
  "0 < length (scopes (run [OnReconnect 0 5, MarkStarted 0] (snd (SocketPage ''jobs'' boot)))) \<and>
   ReconnectHook 0 \<in> set (callbacks
      (run [OnReconnect 0 5, MarkStarted 0] (snd (SocketPage ''jobs'' boot))) ''reconnect'') \<and>
   started (scopes (run [OnReconnect 0 5, MarkStarted 0] (snd (SocketPage ''jobs'' boot))) ! 0) \<and>
   onReconnect_cb (scopes (run [OnReconnect 0 5, MarkStarted 0]
      (snd (SocketPage ''jobs'' boot))) ! 0) = Some 5 \<and>
   hooks_installed (run [OnReconnect 0 5, MarkStarted 0] (snd (SocketPage ''jobs'' boot))) \<and>
   ReconnectHook 0 \<in> set (callbacks (scope_cleanup 0
      (run [OnReconnect 0 5, MarkStarted 0] (snd (SocketPage ''jobs'' boot)))) ''reconnect'') \<and>
   hook_calls 0 (trace (env_step (Signal Reconnect) (scope_cleanup 0
      (run [OnReconnect 0 5, MarkStarted 0] (snd (SocketPage ''jobs'' boot)))))) =
     hook_calls 0 (trace (scope_cleanup 0
      (run [OnReconnect 0 5, MarkStarted 0] (snd (SocketPage ''jobs'' boot))))) @ [5]"
proof -
  let ?S = "run [OnReconnect 0 5, MarkStarted 0] (snd (SocketPage ''jobs'' boot))"
  have v: "0 < length (scopes ?S)"
    by (simp add: eval_defs)
  have h: "ReconnectHook 0 \<in> set (callbacks ?S ''reconnect'')"
    by (simp add: eval_defs)
  have s: "started (scopes ?S ! 0)"
    by (simp add: eval_defs)
  have r: "onReconnect_cb (scopes ?S ! 0) = Some 5"
    by (simp add: eval_defs)
  have i: "hooks_installed ?S"
    by (simp add: eval_defs hooks_installed_def)
  from reconnect_hook_survives_cleanup [of "''jobs''" boot 0 ?S 5] v h s r i
  show ?thesis by blast
qed

section \<open>Cleanup while an emission is deferred\<close>

lemma find_wraps_once: "find (wraps g) ls = Some (OnceWrap f) \<Longrightarrow> g = f"
  by (induction ls) (auto split: if_splits)

lemma once_count_splice_first:
  "length (filter (\<lambda>l. l = OnceWrap f) (splice_first g ls)) =
     length (filter (\<lambda>l. l = OnceWrap f) ls) -
       (if find (wraps g) ls = Some (OnceWrap f) then 1 else 0)"
proof (induction ls)
  case Nil
  then show ?case by simp
next
  case (Cons l ls)
  show ?case
  proof (cases "wraps g l")
    case True
    then show ?thesis by auto
  next
    case False
    show ?thesis
    proof (cases "l = OnceWrap f")
      case True
      with False have "g \<noteq> f" by auto
      then have "find (wraps g) ls \<noteq> Some (OnceWrap f)"
        using find_wraps_once by blast
      with False True Cons.IH show ?thesis by simp
    next
      case l: False
      with False Cons.IH show ?thesis by simp
    qed
  qed
qed

lemma queued_cleanup:
  assumes v: "sid < length (scopes st)"
      and d: "distinct (map fst (listeners (scopes st ! sid)))"
  shows "queued (scope_cleanup sid st) f =
           queued st f - (if cleanup_meets_wrapper st sid f then 1 else 0)"
proof -
  have cb: "callbacks (scope_cleanup sid st) ''connect'' =
      (case tracked st sid ''connect'' of
         None \<Rightarrow> callbacks st ''connect''
       | Some g \<Rightarrow> splice_first g (callbacks st ''connect''))"
    by (simp add: scope_cleanup_eq [OF v] unsub_apply [OF d] tracked_def)
  show ?thesis
  proof (cases "tracked st sid ''connect''")
    case None
    then show ?thesis
      by (simp add: queued_def cb cleanup_meets_wrapper_def)
  next
    case (Some g)
    have "(find (wraps g) (callbacks st ''connect'') = Some (OnceWrap f)) =
          cleanup_meets_wrapper st sid f"
      using find_wraps_once [of g "callbacks st ''connect''" f]
      by (auto simp add: cleanup_meets_wrapper_def Some)
    then show ?thesis
      by (simp add: queued_def cb Some once_count_splice_first)
  qed
qed

lemma wrapper_calls_of:
  "length (filter (\<lambda>c. c = ByListener ''connect'' (OnceWrap f) f) (calls_of scs ev l)) =
     (if ev = ''connect'' \<and> l = OnceWrap f then 1 else 0)"
proof (cases l)
  case (ReconnectHook s)
  have "calls_of scs ev l = [] \<or> (\<exists>g. calls_of scs ev l = [ByListener ev (ReconnectHook s) g])"
    by (auto simp add: ReconnectHook split: option.splits)
  then have "filter (\<lambda>c. c = ByListener ''connect'' (OnceWrap f) f) (calls_of scs ev l) = []"
    by (elim disjE exE) simp_all
  moreover have "l \<noteq> OnceWrap f" by (simp add: ReconnectHook)
  ultimately show ?thesis by simp
next
  case (Handler g)
  then show ?thesis by simp
next
  case (OnceWrap g)
  then show ?thesis by auto
next
  case LifecycleLog
  then show ?thesis by simp
qed

lemma wrapper_calls_emit:
  "length (filter (\<lambda>c. c = ByListener ''connect'' (OnceWrap f) f)
       (concat (map (calls_of scs ev) ls))) =
     (if ev = ''connect'' then length (filter (\<lambda>l. l = OnceWrap f) ls) else 0)"
  by (induction ls) (simp_all add: wrapper_calls_of del: calls_of.simps)

lemma no_once_after_emit: "filter (\<lambda>l. l = OnceWrap f) (filter (\<lambda>l. \<not> is_once l) ls) = []"
  by (induction ls) auto

lemma env_step_keeps_queued:
  assumes "emitted a \<noteq> Some ''connect''"
  shows "queued (env_step a st) f = queued st f"
    and "wrapper_calls f (trace (env_step a st)) = wrapper_calls f (trace st)"
proof -
  have "queued (env_step a st) f = queued st f \<and>
        wrapper_calls f (trace (env_step a st)) = wrapper_calls f (trace st)"
    using assms
    by (cases "(a, st)" rule: env_step.cases)
       (simp_all add: queued_def wrapper_calls_def sock_emit_eq wrapper_calls_emit tick_def
          log_call_def split: option.splits)
  then show "queued (env_step a st) f = queued st f"
    and "wrapper_calls f (trace (env_step a st)) = wrapper_calls f (trace st)"
    by simp_all
qed

lemma env_run_keeps_queued:
  assumes "\<forall>a\<in>set evs. emitted a \<noteq> Some ''connect''"
  shows "queued (env_run evs st) f = queued st f"
    and "wrapper_calls f (trace (env_run evs st)) = wrapper_calls f (trace st)"
proof -
  have "queued (env_run evs st) f = queued st f \<and>
        wrapper_calls f (trace (env_run evs st)) = wrapper_calls f (trace st)"
    using assms unfolding env_run_def
    by (induction evs arbitrary: st) (simp_all add: env_step_keeps_queued del: env_step.simps)
  then show "queued (env_run evs st) f = queued st f"
    and "wrapper_calls f (trace (env_run evs st)) = wrapper_calls f (trace st)"
    by simp_all
qed

lemma connect_fires_queued:
  "wrapper_calls f (trace (env_step (Signal Connect) st)) = wrapper_calls f (trace st) + queued st f"
  "queued (env_step (Signal Connect) st) f = 0"
  by (simp_all add: queued_def wrapper_calls_def sock_emit_eq wrapper_calls_emit
      no_once_after_emit del: filter_filter)

text \<open>
  What \<open>cleanup()\<close> does to the calls that \<open>emitWhenReady\<close> has queued, in any state (the keys
  of a \<open>listeners\<close> object are unique, as \<open>reachable_invariants\<close> shows for every state
  reached from start-up). It removes a queued wrapper of \<open>f\<close> in one situation only: the
  session's own entry for \<open>connect\<close> is \<open>f\<close> itself and the first callback of \<open>connect\<close> that is
  or wraps \<open>f\<close> is a queued wrapper; then exactly one wrapper is removed. In every other
  situation all deferred calls of \<open>f\<close> stay queued. Whatever the environment does next short
  of emitting \<open>connect\<close> neither calls nor removes a queued wrapper, and the connect signal
  then makes each wrapper still queued call \<open>f\<close> once, after which none is queued.
\<close>

lemma cleanup_then_connect:
  assumes "sid < length (scopes st)"
      and "distinct (map fst (listeners (scopes st ! sid)))"
      and "\<forall>a\<in>set evs. emitted a \<noteq> Some ''connect''"
  shows "queued (scope_cleanup sid st) f =
           queued st f - (if cleanup_meets_wrapper st sid f then 1 else 0) \<and>
         queued (env_run evs (scope_cleanup sid st)) f = queued (scope_cleanup sid st) f \<and>
         wrapper_calls f (trace (env_run evs (scope_cleanup sid st))) =
           wrapper_calls f (trace st) \<and>
         wrapper_calls f (trace (env_step (Signal Connect) (env_run evs (scope_cleanup sid st)))) =
           wrapper_calls f (trace st) + queued (scope_cleanup sid st) f \<and>
         queued (env_step (Signal Connect) (env_run evs (scope_cleanup sid st))) f = 0"
proof -
  have tr: "trace (scope_cleanup sid st) = trace st"
    by (simp add: scope_cleanup_eq [OF assms(1)])
  have a: "queued (scope_cleanup sid st) f =
           queued st f - (if cleanup_meets_wrapper st sid f then 1 else 0)"
    by (rule queued_cleanup [OF assms(1,2)])
  have b: "queued (env_run evs (scope_cleanup sid st)) f = queued (scope_cleanup sid st) f"
    by (rule env_run_keeps_queued [OF assms(3)])
  have c: "wrapper_calls f (trace (env_run evs (scope_cleanup sid st))) =
           wrapper_calls f (trace st)"
    by (simp only: env_run_keeps_queued [OF assms(3)] tr)
  have d: "wrapper_calls f (trace (env_step (Signal Connect) (env_run evs (scope_cleanup sid st)))) =
           wrapper_calls f (trace st) + queued (scope_cleanup sid st) f"
    by (simp only: connect_fires_queued b c)
  have e: "queued (env_step (Signal Connect) (env_run evs (scope_cleanup sid st))) f = 0"
    by (rule connect_fires_queued)
  from a b c d e show ?thesis by (simp only: simp_thms)
qed


section \<open>States reached from start-up\<close>

text \<open>
  The side conditions of the statements above (fresh interval handles, unique keys of
  \<open>listeners\<close>, one reconnect closure per scope) hold in every state that a run of actions
  reaches from the state after start-up.
\<close>

lemma keys_unique_update:
  assumes "keys_unique st" and "scopes st' = (scopes st)[sid := sc]"
      and "distinct (map fst (listeners sc))"
  shows "keys_unique st'"
  using assms set_update_subset_insert [of "scopes st" sid sc]
  by (auto simp add: keys_unique_def)

lemma keys_unique_same: "keys_unique st \<Longrightarrow> scopes st' = scopes st \<Longrightarrow> keys_unique st'"
  by (simp add: keys_unique_def)

lemma keys_unique_nth: "keys_unique st \<Longrightarrow> sid < length (scopes st) \<Longrightarrow>
  distinct (map fst (listeners (scopes st ! sid)))"
  by (simp add: keys_unique_def)

lemma step_keys_unique:
  assumes "keys_unique st"
  shows "keys_unique (step a st)"
proof (cases a)
  case (Create nm)
  with assms show ?thesis
    by (auto simp add: keys_unique_def SocketPage_new_scope)
next
  case (On sid ev h)
  show ?thesis
  proof (cases "sid < length (scopes st)")
    case True
    note d = keys_unique_nth [OF assms True]
    from assms scope_on_scopes [OF True, of ev h] show ?thesis
      unfolding On step.simps
      by (rule keys_unique_update) (simp add: d listeners_set_distinct split: sum.splits)
  next
    case False
    with assms On show ?thesis by (simp add: scope_on_def)
  qed
next
  case (EmitWhenReady sid f)
  with assms show ?thesis
    by (simp add: keys_unique_def scope_emitWhenReady_def sock_once_def sock_on_def log_call_def)
next
  case (Poll sid ms f immediate vis)
  show ?thesis
  proof (cases "sid < length (scopes st)")
    case True
    have "scopes (scope_poll sid ms f immediate vis st) =
        (scopes st)[sid := (scopes st ! sid)\<lparr>timers := timers (scopes st ! sid) @ [next_timer st]\<rparr>]"
      using True by (simp add: scope_poll_eq)
    with assms show ?thesis
      unfolding Poll step.simps
      by (rule keys_unique_update) (simp add: keys_unique_nth [OF assms True])
  next
    case False
    with assms Poll show ?thesis by (simp add: scope_poll_def)
  qed
next
  case (Cleanup sid)
  show ?thesis
  proof (cases "sid < length (scopes st)")
    case True
    have "scopes (scope_cleanup sid st) =
        (scopes st)[sid := (scopes st ! sid)
            \<lparr>timers := [], listeners := [], listeners_proto := None\<rparr>]"
      using True by (simp add: scope_cleanup_eq)
    with assms show ?thesis
      unfolding Cleanup step.simps
      by (rule keys_unique_update) simp
  next
    case False
    with assms Cleanup show ?thesis by (simp add: scope_cleanup_def)
  qed
next
  case (OnReconnect sid f)
  show ?thesis
  proof (cases "sid < length (scopes st)")
    case True
    have "scopes (scope_onReconnect sid f st) =
        (scopes st)[sid := (scopes st ! sid)\<lparr>onReconnect_cb := Some f\<rparr>]"
      using True by (simp add: scope_onReconnect_def)
    with assms show ?thesis
      unfolding OnReconnect step.simps
      by (rule keys_unique_update) (simp add: keys_unique_nth [OF assms True])
  next
    case False
    with assms OnReconnect show ?thesis by (simp add: scope_onReconnect_def)
  qed
next
  case (MarkStarted sid)
  show ?thesis
  proof (cases "sid < length (scopes st)")
    case True
    have "scopes (scope_markStarted sid st) =
        (scopes st)[sid := (scopes st ! sid)\<lparr>started := True\<rparr>]"
      using True by (simp add: scope_markStarted_def)
    with assms show ?thesis
      unfolding MarkStarted step.simps
      by (rule keys_unique_update) (simp add: keys_unique_nth [OF assms True])
  next
    case False
    with assms MarkStarted show ?thesis by (simp add: scope_markStarted_def)
  qed
next
  case (SocketOn ev f)
  with assms show ?thesis by (simp add: keys_unique_def sock_on_def)
next
  case (Env e)
  with assms show ?thesis by (simp add: keys_unique_def)
qed

lemma run_keys_unique: "keys_unique st \<Longrightarrow> keys_unique (run acts st)"
  unfolding run_def
  by (induction acts arbitrary: st) (simp_all add: step_keys_unique del: step.simps)

lemma boot_keys_unique: "keys_unique boot"
  by (simp add: keys_unique_def boot_def new_socket_def sock_on_def sock_off_all_def)

lemma step_timers_fresh: "timers_fresh st \<Longrightarrow> timers_fresh (step a st)"
proof (cases a)
  case (Create nm)
  then show ?thesis
    if "timers_fresh st" using that
    by (simp add: timers_fresh_def SocketPage_def Let_def sock_on_def sock_off_all_def)
next
  case (On sid ev h)
  then show ?thesis
    if "timers_fresh st" using that
    by (simp add: timers_fresh_def)
next
  case (EmitWhenReady sid f)
  then show ?thesis
    if "timers_fresh st" using that
    by (simp add: timers_fresh_def scope_emitWhenReady_def sock_once_def sock_on_def log_call_def)
next
  case (Poll sid ms f immediate vis)
  then show ?thesis
    if "timers_fresh st" using that
    by (cases "sid < length (scopes st)") (simp_all add: scope_poll_fresh, simp add: scope_poll_def)
next
  case (Cleanup sid)
  show ?thesis
    if fr: "timers_fresh st"
  proof (cases "sid < length (scopes st)")
    case True
    with fr show ?thesis
      unfolding Cleanup step.simps scope_cleanup_eq [OF True]
      by (auto simp add: timers_fresh_def)
  next
    case False
    with fr Cleanup show ?thesis by (simp add: scope_cleanup_def)
  qed
next
  case (OnReconnect sid f)
  then show ?thesis
    if "timers_fresh st" using that
    by (simp add: timers_fresh_def scope_onReconnect_def)
next
  case (MarkStarted sid)
  then show ?thesis
    if "timers_fresh st" using that
    by (simp add: timers_fresh_def scope_markStarted_def)
next
  case (SocketOn ev f)
  then show ?thesis
    if "timers_fresh st" using that
    by (simp add: timers_fresh_def sock_on_def)
next
  case (Env e)
  then show ?thesis
    if "timers_fresh st" using that
    by (cases "(e, st)" rule: env_step.cases)
       (simp_all add: timers_fresh_def sock_emit_eq tick_def log_call_def split: option.splits)
qed

lemma run_timers_fresh: "timers_fresh st \<Longrightarrow> timers_fresh (run acts st)"
  unfolding run_def
  by (induction acts arbitrary: st) (simp_all add: step_timers_fresh del: step.simps)

lemma boot_timers_fresh: "timers_fresh boot"
  by (simp add: timers_fresh_def boot_def new_socket_def sock_on_def sock_off_all_def)

lemma reachable_invariants:
  "timers_fresh (run acts boot) \<and> keys_unique (run acts boot) \<and>
   hooks_installed (run acts boot)"
  by (simp add: run_timers_fresh boot_timers_fresh run_keys_unique boot_keys_unique
      run_hooks_installed boot_hooks_installed)

section \<open>Cancelling a single timer\<close>

text \<open>
  Claim C3 asks that every session offers \<open>stopPoll(handle)\<close>, cancelling the one timer with
  that handle. jobs.js relies on it (\<open>page.stopPoll(jobsPollId)\<close>, line 41), but the object
  built by \<open>SocketPage\<close> has no member \<open>stopPoll\<close>, whatever its state: evaluating the call
  throws a TypeError, and no timer is cancelled.
\<close>

theorem stopPoll_is_not_a_function:
  "scope_member sc ''stopPoll'' = None \<and>
   call_error sc ''stopPoll'' = Some (TypeError ''page.stopPoll is not a function'')"
  by (simp add: call_error_def scope_member_def object_prototype_members_def)

end
